theory Spec2Isabelle
  imports Complex_Main "HOL-Library.Word" "HOL-Library.Signed_Division"
begin

unbundle bit_operations_syntax

chapter \<open>The model\<close>

section \<open>Segment partitioning (main)\<close>

text \<open>
  The C \<open>int\<close> values of the program are modelled as HOL integers; \<open>/\<close> and \<open>%\<close> on
  them are the truncating \<open>sdiv\<close> and \<open>smod\<close>. The lines of \<open>main\<close> between the
  process-count check and the construction of the \<open>Simulation\<close> are embedded one
  definition per local variable. Throughout, \<open>sz\<close> is the source's \<open>size\<close>, the number of
  processes.
\<close>

definition segment_size :: "int \<Rightarrow> int \<Rightarrow> int" where
  "segment_size road_length sz = road_length sdiv sz"

definition remainder :: "int \<Rightarrow> int \<Rightarrow> int" where
  "remainder road_length sz = road_length smod sz"

definition start_pos :: "int \<Rightarrow> int \<Rightarrow> int \<Rightarrow> int" where
  "start_pos road_length sz rank =
     rank * segment_size road_length sz + min rank (remainder road_length sz)"

definition end_pos :: "int \<Rightarrow> int \<Rightarrow> int \<Rightarrow> int" where
  "end_pos road_length sz rank =
     (let e = start_pos road_length sz rank + segment_size road_length sz - 1
      in if rank < remainder road_length sz then e + 1 else e)"

definition road_length_per_process :: "int \<Rightarrow> int \<Rightarrow> int \<Rightarrow> int" where
  "road_length_per_process road_length sz rank =
     end_pos road_length sz rank - start_pos road_length sz rank"

section \<open>The statistics reduction at the head (end of run_simulation)\<close>

text \<open>
  After the barrier every rank reads \<open>average\<close>, \<open>variance\<close> and \<open>numSamples\<close> from
  its accumulator. A rank above 0 sends the three values as doubles to rank 0; rank 0
  starts its totals from its own three values and adds what it receives from the sources
  \<open>1, 2, \<dots>, size - 1\<close>, in that order.

  The arithmetic is kept polymorphic: the functions below use only \<open>+\<close>, \<open>-\<close>, \<open>*\<close> and
  \<open>/\<close> of a type that need not satisfy any law, as the operations on doubles do not. A
  triple \<open>(average, variance, numSamples)\<close> holds the sample count already converted to
  that type, as \<open>static_cast<double>(numSamples)\<close> and the implicit conversions in the
  products of the source do. Every expression keeps the source's association.
\<close>

type_synonym 'a stat_msg = "'a \<times> 'a \<times> 'a"

record 'a totals =
  total_sum :: 'a
  total_samples :: 'a
  total_squared_sum :: 'a

definition init_totals :: "('a::{plus,times}) stat_msg \<Rightarrow> 'a totals" where
  "init_totals local =
     (case local of (average, variance, numSamples) \<Rightarrow>
        \<lparr> total_sum = average * numSamples,
          total_samples = numSamples,
          total_squared_sum = variance * numSamples + average * average * numSamples \<rparr>)"

definition add_to_totals :: "('a::{plus,times}) totals \<Rightarrow> 'a stat_msg \<Rightarrow> 'a totals" where
  "add_to_totals t received_data =
     (case received_data of (d0, d1, d2) \<Rightarrow>
        \<lparr> total_sum = total_sum t + d0 * d2,
          total_samples = total_samples t + d2,
          total_squared_sum = total_squared_sum t + (d1 * d2 + d0 * d0 * d2) \<rparr>)"

definition final_statistics :: "('a::{minus,times,inverse}) totals \<Rightarrow> 'a \<times> 'a \<times> 'a" where
  "final_statistics t =
     (let final_average = total_sum t / total_samples t;
          final_variance = total_squared_sum t / total_samples t - final_average * final_average
      in (final_average, final_variance, total_samples t))"

text \<open>
  The messages on their way to rank 0, in the order of their arrival, each with the rank
  that sent it. \<open>MPI_Recv\<close> with a source rank takes the earliest pending message of that
  source and leaves the others; with none pending it blocks (\<open>None\<close>).
\<close>

type_synonym 'a mailbox = "(nat \<times> 'a stat_msg) list"

fun mpi_recv :: "nat \<Rightarrow> 'a mailbox \<Rightarrow> ('a stat_msg \<times> 'a mailbox) option" where
  "mpi_recv source [] = None"
| "mpi_recv source ((s, d) # pending) =
     (if s = source then Some (d, pending)
      else map_option (\<lambda>(d', rest). (d', (s, d) # rest)) (mpi_recv source pending))"

text \<open>The loop \<open>for (int source = 1; source < size; source++)\<close>.\<close>

function gather_loop ::
  "nat \<Rightarrow> nat \<Rightarrow> ('a::{plus,times}) mailbox \<Rightarrow> 'a totals \<Rightarrow> 'a totals option" where
  "gather_loop source sz pending t =
     (if source < sz then
        (case mpi_recv source pending of
           None \<Rightarrow> None
         | Some (received_data, pending') \<Rightarrow>
             gather_loop (source + 1) sz pending' (add_to_totals t received_data))
      else Some t)"
  by pat_completeness auto
termination
  by (relation "measure (\<lambda>(source, sz, pending, t). sz - source)") auto

declare gather_loop.simps [simp del]

text \<open>
  The \<open>else\<close> branch of \<open>if (rank > 0)\<close>: the values printed are \<open>final_average\<close>, the
  square root of \<open>final_variance\<close> and \<open>total_samples\<close>; the result here is the triple
  before printing.
\<close>

definition head_reduce ::
  "nat \<Rightarrow> ('a::{plus,minus,times,inverse}) stat_msg \<Rightarrow> 'a mailbox \<Rightarrow> ('a \<times> 'a \<times> 'a) option" where
  "head_reduce sz local pending =
     map_option final_statistics (gather_loop 1 sz pending (init_totals local))"

text \<open>
  The reference computation over a list of samples: their mean and their population
  variance, the mean squared deviation from the mean. An accumulator holds the statistic
  of a sample list when its count is the length of the list and, the list not being
  empty, its average and variance are these two values.
\<close>

definition mean :: "real list \<Rightarrow> real" where
  "mean xs = sum_list xs / real (length xs)"

definition pvariance :: "real list \<Rightarrow> real" where
  "pvariance xs = sum_list (map (\<lambda>x. (x - mean xs)\<^sup>2) xs) / real (length xs)"

definition holds_statistic :: "real list \<Rightarrow> real stat_msg \<Rightarrow> bool" where
  "holds_statistic xs t =
     (case t of (average, variance, numSamples) \<Rightarrow>
        numSamples = real (length xs)
        \<and> (xs \<noteq> [] \<longrightarrow> average = mean xs \<and> variance = pvariance xs))"

section \<open>The handoff record and its wire format\<close>

text \<open>
  \<open>struct VehicleData\<close> of \<open>run_simulation\<close>: five \<open>int\<close> members, in the order of their
  declaration.
\<close>

record VehicleData =
  vd_lane :: int
  vd_id :: int
  vd_position :: int
  vd_speed :: int
  vd_time_on_road :: int

text \<open>
  A batch is sent as raw memory: \<open>MPI_Send(&send_count, 1, MPI_INT, \<dots>)\<close>, then
  \<open>MPI_Send(send_to_right.data(), send_count * sizeof(VehicleData), MPI_BYTE, \<dots>)\<close>. An
  \<open>int\<close> is taken to be 32 bits wide, two's complement, least significant byte first,
  and the struct to have no padding, so that \<open>sizeof(VehicleData)\<close> is 20.
\<close>

type_synonym byte = "8 word"

text \<open>
  The value an \<open>int\<close> takes for an integer result: the result itself when it is in the
  range of an \<open>int\<close>, and wrapped around modulo \<open>2 ^ 32\<close> when it is not, as the
  addition and increment instructions of the compiled program do.
\<close>

definition c_int :: "int \<Rightarrow> int" where
  "c_int x = (x + 2 ^ 31) mod 2 ^ 32 - 2 ^ 31"

definition sizeof_VehicleData :: nat where
  "sizeof_VehicleData = 20"

definition int_to_bytes :: "int \<Rightarrow> byte list" where
  "int_to_bytes x =
     (let u = x mod 2 ^ 32
      in [word_of_int u, word_of_int (u div 2 ^ 8),
          word_of_int (u div 2 ^ 16), word_of_int (u div 2 ^ 24)])"

definition bytes_to_int :: "byte list \<Rightarrow> int" where
  "bytes_to_int bs =
     (let u = uint (bs ! 0) + 2 ^ 8 * uint (bs ! 1)
              + 2 ^ 16 * uint (bs ! 2) + 2 ^ 24 * uint (bs ! 3)
      in if u < 2 ^ 31 then u else u - 2 ^ 32)"

definition VehicleData_to_bytes :: "VehicleData \<Rightarrow> byte list" where
  "VehicleData_to_bytes vd =
     int_to_bytes (vd_lane vd) @ int_to_bytes (vd_id vd) @ int_to_bytes (vd_position vd)
     @ int_to_bytes (vd_speed vd) @ int_to_bytes (vd_time_on_road vd)"

definition bytes_to_VehicleData :: "byte list \<Rightarrow> VehicleData" where
  "bytes_to_VehicleData bs =
     \<lparr> vd_lane = bytes_to_int (take 4 bs),
       vd_id = bytes_to_int (take 4 (drop 4 bs)),
       vd_position = bytes_to_int (take 4 (drop 8 bs)),
       vd_speed = bytes_to_int (take 4 (drop 12 bs)),
       vd_time_on_road = bytes_to_int (take 4 (drop 16 bs)) \<rparr>"

text \<open>The records of a received buffer of \<open>n\<close> records, read back from its bytes.\<close>

fun records_of_bytes :: "nat \<Rightarrow> byte list \<Rightarrow> VehicleData list" where
  "records_of_bytes 0 bs = []"
| "records_of_bytes (Suc n) bs =
     bytes_to_VehicleData (take sizeof_VehicleData bs)
       # records_of_bytes n (drop sizeof_VehicleData bs)"

text \<open>
  \<open>send_to_right.resize(send_count)\<close> keeps the first \<open>send_count\<close> records of the vector
  and fills up with records of zeros. A receive into a buffer overwrites the bytes that
  the message has and leaves the rest of the buffer as it was.
\<close>

definition zero_VehicleData :: VehicleData where
  "zero_VehicleData =
     \<lparr> vd_lane = 0, vd_id = 0, vd_position = 0, vd_speed = 0, vd_time_on_road = 0 \<rparr>"

definition resize_records :: "nat \<Rightarrow> VehicleData list \<Rightarrow> VehicleData list" where
  "resize_records n records = take n records @ replicate (n - length records) zero_VehicleData"

definition receive_into :: "byte list \<Rightarrow> byte list \<Rightarrow> byte list" where
  "receive_into buffer msg = msg @ drop (length msg) buffer"

definition in_int_range :: "int \<Rightarrow> bool" where
  "in_int_range x = (- (2 ^ 31) \<le> x \<and> x < 2 ^ 31)"

definition VehicleData_in_range :: "VehicleData \<Rightarrow> bool" where
  "VehicleData_in_range vd =
     (in_int_range (vd_lane vd) \<and> in_int_range (vd_id vd) \<and> in_int_range (vd_position vd)
      \<and> in_int_range (vd_speed vd) \<and> in_int_range (vd_time_on_road vd))"

section \<open>The simulation driver (Simulation::run_simulation)\<close>

text \<open>
  The driver is embedded over everything it calls but does not define. The \<open>Vehicle\<close>,
  \<open>Lane\<close> and \<open>Road\<close> objects of one worker, with whatever else their methods read and
  write (the random number generator among it), form that worker's world, of an arbitrary
  type \<open>'w\<close>; a pointer is an address into it. The methods the driver calls are the fields
  of \<open>ops\<close>, each a function on the world with the arguments of the call, in the order of
  the source. The driver itself, its containers and its control flow are the source's.
\<close>

type_synonym addr = nat

text \<open>The members of \<open>Inputs\<close> that the driver reads.\<close>

record Inputs =
  max_time :: int
  warmup_time :: int
  max_speed :: int

record 'w ops =
  updateGaps :: "addr \<Rightarrow> 'w \<Rightarrow> 'w"
  performLaneSwitch :: "addr \<Rightarrow> 'w \<Rightarrow> 'w"
  performLaneMove :: "addr \<Rightarrow> 'w \<Rightarrow> int \<times> 'w"
  getVehicleLane :: "addr \<Rightarrow> 'w \<Rightarrow> int"
  getId :: "addr \<Rightarrow> 'w \<Rightarrow> int"
  getNewPosition :: "addr \<Rightarrow> 'w \<Rightarrow> int"
  getPrevPosition :: "addr \<Rightarrow> 'w \<Rightarrow> int"
  getSpeed :: "addr \<Rightarrow> 'w \<Rightarrow> int"
  getTravelTime :: "addr \<Rightarrow> Inputs \<Rightarrow> 'w \<Rightarrow> real"
  setSpeed :: "addr \<Rightarrow> int \<Rightarrow> 'w \<Rightarrow> 'w"
  setTimeOnRoad :: "addr \<Rightarrow> int \<Rightarrow> 'w \<Rightarrow> 'w"
  setTempPosition :: "addr \<Rightarrow> int \<Rightarrow> 'w \<Rightarrow> 'w"
  getLane_removeVehicle :: "addr \<Rightarrow> int \<Rightarrow> 'w \<Rightarrow> 'w"
  getLaneNumber :: "addr \<Rightarrow> 'w \<Rightarrow> int"
  newVehicle :: "addr \<Rightarrow> int \<Rightarrow> int \<Rightarrow> Inputs \<Rightarrow> 'w \<Rightarrow> addr \<times> 'w"
  deleteVehicle :: "addr \<Rightarrow> 'w \<Rightarrow> 'w"
  attemptSpawn :: "Inputs \<Rightarrow> addr list \<Rightarrow> int \<Rightarrow> 'w \<Rightarrow> addr list \<times> int \<times> 'w"

text \<open>
  What a worker does that another process or the accumulator can observe, in the order
  it does it. \<open>travel_time->addValue(x)\<close> is the event \<open>Add_value x\<close>: the accumulator
  class is not part of the driver, and its state is a function of the values added.
\<close>

datatype event =
    MPI_Send nat "byte list"
  | MPI_Recv nat "byte list"
  | Time_increment
  | Add_value real
  | Delete_vehicle addr
  | Attempt_spawn

text \<open>
  The ways a tick can fail to complete: a receive with no message to take, a message
  that is not a batch, a negative count given to \<open>MPI_Send\<close> or \<open>MPI_Recv\<close>, the use
  of \<open>new_vehicle\<close> before any assignment to it, and an index outside its vector.
\<close>

datatype error =
    Receive_blocked
  | Malformed_message
  | Invalid_count
  | Uninitialised_pointer
  | Index_out_of_range

text \<open>
  The members of \<open>Simulation\<close> and the locals of \<open>run_simulation\<close> that live across the
  \<open>while\<close> loop. \<open>travel_time\<close> is the list of the values added to the accumulator,
  \<open>from_left\<close> the messages of the left neighbour that have arrived and are not yet
  received, \<open>trace\<close> the events so far.
\<close>

record 'w sim =
  world :: 'w
  time :: int
  next_id :: int
  vehicles :: "addr list"
  travel_time :: "real list"
  lanes :: "addr list"
  vehicles_to_remove :: "nat list"
  send_to_right :: "VehicleData list"
  local_vehicles :: "addr list"
  local_vehicles_to_remove :: "nat list"
  from_left :: "byte list list"
  trace :: "event list"

text \<open>\<open>v.erase(v.begin() + index)\<close>.\<close>

definition erase :: "nat \<Rightarrow> 'a list \<Rightarrow> 'a list" where
  "erase index xs = take index xs @ drop (Suc index) xs"

text \<open>
  The record \<open>vdata\<close> of a vehicle whose move returned \<open>time_on_road\<close>. Its members are
  \<open>int\<close>s: each holds the \<open>int\<close> value of what the model's getter returns; the getters
  of the source return \<open>int\<close>s, on which \<open>c_int\<close> changes nothing. In what follows
  \<open>length_per_process\<close> is the parameter \<open>road_length_per_process\<close> of \<open>run_simulation\<close>.
\<close>

definition make_vdata :: "'w ops \<Rightarrow> addr \<Rightarrow> int \<Rightarrow> int \<Rightarrow> 'w \<Rightarrow> VehicleData" where
  "make_vdata ops vehicle new_pos time_on_road w =
     \<lparr> vd_lane = c_int (getVehicleLane ops vehicle w),
       vd_id = c_int (getId ops vehicle w),
       vd_position = c_int new_pos,
       vd_speed = c_int (getSpeed ops vehicle w),
       vd_time_on_road = c_int time_on_road \<rparr>"

subsection \<open>Rank 0: lane switch and lane move over all vehicles\<close>

fun lane_switch_all :: "'w ops \<Rightarrow> addr list \<Rightarrow> 'w \<Rightarrow> 'w" where
  "lane_switch_all ops [] w = w"
| "lane_switch_all ops (v # vs) w =
     lane_switch_all ops vs (updateGaps ops v (performLaneSwitch ops v (updateGaps ops v w)))"

text \<open>
  The second \<open>for\<close> loop of rank 0, from index \<open>n\<close> over the vehicles from there on: a
  vehicle whose move returns a nonzero time is marked for removal and its record queued.
\<close>

fun lane_move_all :: "'w ops \<Rightarrow> nat \<Rightarrow> addr list \<Rightarrow> 'w sim \<Rightarrow> 'w sim" where
  "lane_move_all ops n [] st = st"
| "lane_move_all ops n (v # vs) st =
     (case performLaneMove ops v (world st) of (time_on_road, w) \<Rightarrow>
        lane_move_all ops (n + 1) vs
          (if time_on_road \<noteq> 0 then
             st\<lparr> world := w,
                 vehicles_to_remove := vehicles_to_remove st @ [n],
                 send_to_right := send_to_right st
                   @ [make_vdata ops v (getNewPosition ops v w) time_on_road w] \<rparr>
           else st\<lparr> world := w \<rparr>))"

definition head_update :: "'w ops \<Rightarrow> 'w sim \<Rightarrow> 'w sim" where
  "head_update ops st =
     lane_move_all ops 0 (vehicles st)
       (st\<lparr> world := lane_switch_all ops (vehicles st) (world st) \<rparr>)"

subsection \<open>Rank above 0: receive, reconstruct, update\<close>

text \<open>
  The two receives from the left neighbour. With no message pending a receive blocks.
  The first takes one \<open>int\<close>, the count; a message of another size is not handled by the
  source and is an error here, as is a negative count, with which \<open>resize\<close> fails. The
  second receives up to \<open>send_count * sizeof(VehicleData)\<close> bytes, a product that is
  passed as the \<open>int count\<close> of \<open>MPI_Recv\<close>, into the resized \<open>send_to_right\<close>: a
  negative count and a message longer than the count are errors of MPI, a shorter
  message overwrites the front of the buffer and leaves the rest, so that the records it
  does not reach stay what \<open>resize\<close> made them.
\<close>

definition receive_batch :: "nat \<Rightarrow> 'w sim \<Rightarrow> error + 'w sim" where
  "receive_batch neighbor_left st =
     (case from_left st of
        [] \<Rightarrow> Inl Receive_blocked
      | count_msg # pending \<Rightarrow>
          (if length count_msg \<noteq> 4 then Inl Malformed_message
           else
             (let send_count = bytes_to_int count_msg;
                  count = c_int (send_count * int sizeof_VehicleData)
              in if send_count < 0 then Inl Malformed_message
                 else if count < 0 then Inl Invalid_count
                 else
                   (case pending of
                      [] \<Rightarrow> Inl Receive_blocked
                    | data_msg # rest \<Rightarrow>
                        (let buffer = concat (map VehicleData_to_bytes
                                        (resize_records (nat send_count) (send_to_right st)))
                         in if count < int (length data_msg) then Inl Malformed_message
                            else Inr (st\<lparr> from_left := rest,
                                         send_to_right :=
                                           records_of_bytes (nat send_count)
                                             (receive_into buffer data_msg),
                                         trace := trace st
                                           @ [MPI_Recv neighbor_left count_msg,
                                              MPI_Recv neighbor_left data_msg] \<rparr>))))))"

text \<open>
  The inner loop over the lanes: every lane whose number is the record's constructs a
  vehicle and assigns it to \<open>new_vehicle\<close>, which is \<open>None\<close> as long as nothing was
  assigned to it.
\<close>

fun bind_to_lane ::
  "'w ops \<Rightarrow> Inputs \<Rightarrow> VehicleData \<Rightarrow> addr list \<Rightarrow> addr option \<times> 'w \<Rightarrow> addr option \<times> 'w" where
  "bind_to_lane ops inputs vdata [] (new_vehicle, w) = (new_vehicle, w)"
| "bind_to_lane ops inputs vdata (existing_lane # ls) (new_vehicle, w) =
     (if getLaneNumber ops existing_lane w = vd_lane vdata then
        (case newVehicle ops existing_lane (vd_id vdata) (vd_position vdata) inputs w of
           (a, w') \<Rightarrow> bind_to_lane ops inputs vdata ls (Some a, w'))
      else bind_to_lane ops inputs vdata ls (new_vehicle, w))"

text \<open>
  The loop over the received records. \<open>new_vehicle\<close> is declared before the loop, so that
  it keeps its value from one record to the next.
\<close>

fun reconstruct ::
  "'w ops \<Rightarrow> Inputs \<Rightarrow> VehicleData list \<Rightarrow> addr option \<Rightarrow> 'w sim \<Rightarrow> error + 'w sim" where
  "reconstruct ops inputs [] new_vehicle st = Inr st"
| "reconstruct ops inputs (vdata # rest) new_vehicle st =
     (case bind_to_lane ops inputs vdata (lanes st) (new_vehicle, world st) of
        (None, w) \<Rightarrow> Inl Uninitialised_pointer
      | (Some a, w) \<Rightarrow>
          reconstruct ops inputs rest (Some a)
            (st\<lparr> world := setTimeOnRoad ops a (vd_time_on_road vdata)
                             (setSpeed ops a (vd_speed vdata) w),
                local_vehicles := local_vehicles st @ [a] \<rparr>))"

text \<open>
  The body shared by the two removal loops: the travel time of the vehicle is added to
  the accumulator when \<open>time\<close> is beyond the warm-up time, then the vehicle is deleted.
\<close>

definition record_and_delete :: "'w ops \<Rightarrow> Inputs \<Rightarrow> addr \<Rightarrow> 'w sim \<Rightarrow> 'w sim" where
  "record_and_delete ops inputs v st =
     (let st1 = (if time st > warmup_time inputs then
                   st\<lparr> travel_time := travel_time st @ [getTravelTime ops v inputs (world st)],
                       trace := trace st @ [Add_value (getTravelTime ops v inputs (world st))] \<rparr>
                 else st)
      in st1\<lparr> world := deleteVehicle ops v (world st1),
              trace := trace st1 @ [Delete_vehicle v] \<rparr>)"

text \<open>
  The removal loop of a rank above 0, over the indices in \<open>local_vehicles_to_remove\<close> in
  the order given (the caller passes them sorted in descending order).
\<close>

fun remove_local :: "'w ops \<Rightarrow> Inputs \<Rightarrow> nat list \<Rightarrow> 'w sim \<Rightarrow> error + 'w sim" where
  "remove_local ops inputs [] st = Inr st"
| "remove_local ops inputs (index # rest) st =
     (if index < length (local_vehicles st) then
        remove_local ops inputs rest
          ((record_and_delete ops inputs (local_vehicles st ! index) st)
             \<lparr> local_vehicles := erase index (local_vehicles st) \<rparr>)
      else Inl Index_out_of_range)"

text \<open>
  The body of the loop over \<open>local_vehicles\<close> at index \<open>i\<close>, up to the removal loop: gap
  update, lane switch, gap update, lane move, and for a nonzero \<open>time_on_road\<close> the
  boundary test with its two branches. Both branches queue the record. The two sums of
  the test are \<open>int\<close> additions.
\<close>

definition update_one :: "'w ops \<Rightarrow> Inputs \<Rightarrow> int \<Rightarrow> nat \<Rightarrow> 'w sim \<Rightarrow> 'w sim" where
  "update_one ops inputs length_per_process i st =
     (let vehicle = local_vehicles st ! i;
          w3 = updateGaps ops vehicle
                 (performLaneSwitch ops vehicle (updateGaps ops vehicle (world st)));
          prev_pos = getPrevPosition ops vehicle w3
      in case performLaneMove ops vehicle w3 of (time_on_road, w4) \<Rightarrow>
           (let new_pos = getNewPosition ops vehicle w4
            in if time_on_road \<noteq> 0 then
                 (if c_int (prev_pos + new_pos)
                       < c_int (length_per_process + max_speed inputs) then
                    st\<lparr> world := setTempPosition ops vehicle length_per_process w4,
                        send_to_right := send_to_right st
                          @ [make_vdata ops vehicle new_pos time_on_road w4] \<rparr>
                  else
                    st\<lparr> world := getLane_removeVehicle ops vehicle new_pos w4,
                        local_vehicles_to_remove := local_vehicles_to_remove st @ [i],
                        send_to_right := send_to_right st
                          @ [make_vdata ops vehicle new_pos time_on_road w4] \<rparr>)
               else st\<lparr> world := w4 \<rparr>))"

lemma local_vehicles_update_one:
  "local_vehicles (update_one ops inputs length_per_process i st) = local_vehicles st"
  by (simp add: update_one_def Let_def split: prod.split)

lemma length_local_vehicles_remove_local:
  "remove_local ops inputs indices st = Inr st' \<Longrightarrow>
     length (local_vehicles st') \<le> length (local_vehicles st)"
proof (induction indices arbitrary: st)
  case Nil
  then show ?case by simp
next
  case (Cons index rest)
  from Cons.prems have "index < length (local_vehicles st)"
    by (simp split: if_splits)
  with Cons show ?case
    by (fastforce simp: erase_def)
qed

text \<open>
  The whole body of the loop over \<open>local_vehicles\<close> at index \<open>i\<close>: the update of the
  vehicle, then the removal loop over \<open>local_vehicles_to_remove\<close>, sorted in descending
  order, and the clearing of that vector.
\<close>

definition local_body :: "'w ops \<Rightarrow> Inputs \<Rightarrow> int \<Rightarrow> nat \<Rightarrow> 'w sim \<Rightarrow> error + 'w sim" where
  "local_body ops inputs length_per_process i st =
     (let st2 = update_one ops inputs length_per_process i st
      in case remove_local ops inputs (rev (sort (local_vehicles_to_remove st2))) st2 of
           Inl e \<Rightarrow> Inl e
         | Inr st3 \<Rightarrow> Inr (st3\<lparr> local_vehicles_to_remove := [] \<rparr>))"

lemma length_local_vehicles_local_body:
  assumes "local_body ops inputs length_per_process i st = Inr st'"
  shows "length (local_vehicles st') \<le> length (local_vehicles st)"
proof -
  from assms obtain st3 where
    r: "remove_local ops inputs
          (rev (sort (local_vehicles_to_remove (update_one ops inputs length_per_process i st))))
          (update_one ops inputs length_per_process i st) = Inr st3"
    and s: "st' = st3\<lparr> local_vehicles_to_remove := [] \<rparr>"
    by (auto simp: local_body_def Let_def split: sum.splits)
  from length_local_vehicles_remove_local[OF r] s show ?thesis
    by (simp add: local_vehicles_update_one)
qed

text \<open>
  The loop \<open>for (int i = 0; i < local_vehicles.size(); ++i)\<close>. The removal loop is inside
  its body, so that the vector may have shrunk when \<open>i\<close> is incremented.
\<close>

function update_local ::
  "'w ops \<Rightarrow> Inputs \<Rightarrow> int \<Rightarrow> nat \<Rightarrow> 'w sim \<Rightarrow> error + 'w sim" where
  "update_local ops inputs length_per_process i st =
     (if i < length (local_vehicles st) then
        (case local_body ops inputs length_per_process i st of
           Inl e \<Rightarrow> Inl e
         | Inr st3 \<Rightarrow> update_local ops inputs length_per_process (i + 1) st3)
      else Inr st)"
  by pat_completeness auto
termination
proof (relation "measure (\<lambda>(ops, inputs, length_per_process, i, st).
                    length (local_vehicles st) - i)", goal_cases)
  case 1
  show ?case by simp
next
  case (2 ops inputs length_per_process i st st3)
  from length_local_vehicles_local_body[OF 2(2)] 2(1) show ?case
    by simp
qed

declare update_local.simps [simp del]

definition interior_update ::
  "'w ops \<Rightarrow> Inputs \<Rightarrow> nat \<Rightarrow> int \<Rightarrow> 'w sim \<Rightarrow> error + 'w sim" where
  "interior_update ops inputs rank length_per_process st =
     (case receive_batch (rank - 1) st of
        Inl e \<Rightarrow> Inl e
      | Inr st1 \<Rightarrow>
          (case reconstruct ops inputs (send_to_right st1) None st1 of
             Inl e \<Rightarrow> Inl e
           | Inr st2 \<Rightarrow>
               update_local ops inputs length_per_process 0
                 (st2\<lparr> send_to_right := [] \<rparr>)))"

subsection \<open>Every rank: send, advance the time; rank 0: remove and spawn\<close>

text \<open>
  The send to the right neighbour, when there is one. \<open>send_count\<close> is the \<open>int\<close> that the
  size of the vector becomes, and the product \<open>send_count * sizeof(VehicleData)\<close> is
  passed as the \<open>int count\<close> of \<open>MPI_Send\<close>, which sends that many bytes of the vector
  and fails on a negative count.
\<close>

definition send_batch :: "nat \<Rightarrow> nat \<Rightarrow> 'w sim \<Rightarrow> error + 'w sim" where
  "send_batch rank sz st =
     (let neighbor_right = rank + 1
      in if neighbor_right < sz then
           (let send_count = c_int (int (length (send_to_right st)));
                count = c_int (send_count * int sizeof_VehicleData)
            in if count < 0 then Inl Invalid_count
               else
                 Inr (st\<lparr> trace := trace st
                            @ [MPI_Send neighbor_right (int_to_bytes send_count),
                               MPI_Send neighbor_right
                                 (take (nat count)
                                    (concat (map VehicleData_to_bytes (send_to_right st))))],
                          send_to_right := [] \<rparr>))
         else Inr st)"

text \<open>\<open>this->time++\<close> on the \<open>int\<close> member.\<close>

definition increment_time :: "'w sim \<Rightarrow> 'w sim" where
  "increment_time st =
     st\<lparr> time := c_int (time st + 1), trace := trace st @ [Time_increment] \<rparr>"

text \<open>
  The removal loop of rank 0, over the indices of \<open>vehicles_to_remove\<close> in the order
  given (the caller passes them sorted, last to first).
\<close>

fun remove_finished :: "'w ops \<Rightarrow> Inputs \<Rightarrow> nat list \<Rightarrow> 'w sim \<Rightarrow> error + 'w sim" where
  "remove_finished ops inputs [] st = Inr st"
| "remove_finished ops inputs (index # rest) st =
     (if index < length (vehicles st) then
        remove_finished ops inputs rest
          ((record_and_delete ops inputs (vehicles st ! index) st)
             \<lparr> vehicles := erase index (vehicles st) \<rparr>)
      else Inl Index_out_of_range)"

definition spawn :: "'w ops \<Rightarrow> Inputs \<Rightarrow> 'w sim \<Rightarrow> 'w sim" where
  "spawn ops inputs st =
     (case attemptSpawn ops inputs (vehicles st) (next_id st) (world st) of
        (vs, nid, w) \<Rightarrow>
          st\<lparr> world := w, vehicles := vs, next_id := nid,
              trace := trace st @ [Attempt_spawn] \<rparr>)"

definition head_finish :: "'w ops \<Rightarrow> Inputs \<Rightarrow> 'w sim \<Rightarrow> error + 'w sim" where
  "head_finish ops inputs st =
     (case remove_finished ops inputs (rev (sort (vehicles_to_remove st))) st of
        Inl e \<Rightarrow> Inl e
      | Inr st1 \<Rightarrow> Inr (spawn ops inputs (st1\<lparr> vehicles_to_remove := [] \<rparr>)))"



text \<open>
  The part of an iteration before the send: the block of rank 0 or the block of the
  ranks above 0.
\<close>

definition update_phase ::
  "'w ops \<Rightarrow> Inputs \<Rightarrow> nat \<Rightarrow> int \<Rightarrow> 'w sim \<Rightarrow> error + 'w sim" where
  "update_phase ops inputs rank length_per_process st =
     (if rank > 0 then interior_update ops inputs rank length_per_process st
      else Inr (head_update ops st))"

text \<open>One iteration of \<open>while (this->time < this->inputs.max_time)\<close>.\<close>

definition tick ::
  "'w ops \<Rightarrow> Inputs \<Rightarrow> nat \<Rightarrow> nat \<Rightarrow> int \<Rightarrow> 'w sim \<Rightarrow> error + 'w sim" where
  "tick ops inputs rank sz length_per_process st =
     (case update_phase ops inputs rank length_per_process st of
        Inl e \<Rightarrow> Inl e
      | Inr st1 \<Rightarrow>
          (case send_batch rank sz st1 of
             Inl e \<Rightarrow> Inl e
           | Inr st2 \<Rightarrow>
               (let st3 = increment_time st2
                in if rank = 0 then head_finish ops inputs st3 else Inr st3)))"
section \<open>A reference world\<close>

text \<open>
  Modelled from the spec: \<open>Vehicle.cpp\<close>, \<open>Lane\<close>, \<open>Road\<close> and \<open>Inputs\<close> are not among the
  sources, only the declaration of \<open>Vehicle\<close> is. The world below follows sections 3, 4.1
  and 4.2 of the specification for a road on which no vehicle changes lane and none slows
  down at random (both probabilities 0), so that the only random draw left is the one of
  the spawn, which the world holds as \<open>spawn_draw\<close>. It serves to run the driver on
  concrete inputs; the results about the driver hold for every world and every \<open>ops\<close>.

  A \<open>Vehicle\<close> has the members of the class declaration that this world uses, a \<open>Lane\<close>
  its number, its length and the index from positions to the vehicles occupying them.
\<close>

record Vehicle =
  lane_ptr :: addr
  v_id :: int
  v_position :: int
  v_speed :: int
  v_max_speed :: int
  gap_forward :: int
  v_time_on_road :: int
  new_position :: int

record Lane =
  lane_number :: int
  lane_size :: int
  sites :: "int \<rightharpoonup> addr"

record World =
  vehicle_at :: "addr \<rightharpoonup> Vehicle"
  lane_at :: "addr \<rightharpoonup> Lane"
  next_addr :: addr
  spawn_draw :: bool

definition read_vehicle :: "(Vehicle \<Rightarrow> int) \<Rightarrow> addr \<Rightarrow> World \<Rightarrow> int" where
  "read_vehicle field a w = (case vehicle_at w a of None \<Rightarrow> 0 | Some v \<Rightarrow> field v)"

definition write_vehicle :: "(Vehicle \<Rightarrow> Vehicle) \<Rightarrow> addr \<Rightarrow> World \<Rightarrow> World" where
  "write_vehicle f a w =
     (case vehicle_at w a of
        None \<Rightarrow> w
      | Some v \<Rightarrow> w\<lparr> vehicle_at := (vehicle_at w)(a \<mapsto> f v) \<rparr>)"

definition write_lane :: "(Lane \<Rightarrow> Lane) \<Rightarrow> addr \<Rightarrow> World \<Rightarrow> World" where
  "write_lane f l w =
     (case lane_at w l of
        None \<Rightarrow> w
      | Some lane \<Rightarrow> w\<lparr> lane_at := (lane_at w)(l \<mapsto> f lane) \<rparr>)"

text \<open>
  Gap sensing in the vehicle's own lane: the number of free cells up to the nearest
  occupied position strictly ahead, looked for within \<open>max_speed + 1\<close> cells; with none
  there the gap is the length of the lane, which bounds no speed.
\<close>

definition ref_updateGaps :: "addr \<Rightarrow> World \<Rightarrow> World" where
  "ref_updateGaps a w =
     (case vehicle_at w a of
        None \<Rightarrow> w
      | Some v \<Rightarrow>
          (case lane_at w (lane_ptr v) of
             None \<Rightarrow> w
           | Some lane \<Rightarrow>
               write_vehicle
                 (\<lambda>v. v\<lparr> gap_forward :=
                    (case find (\<lambda>i. sites lane (v_position v + i) \<noteq> None)
                            [1 .. v_max_speed v + 1] of
                       None \<Rightarrow> lane_size lane
                     | Some i \<Rightarrow> i - 1) \<rparr>) a w))"

text \<open>
  The move: one more tick on the segment, accelerate, brake to the gap, advance. A new
  position at or beyond the end of the lane takes the vehicle out of the lane's index and
  returns the ticks spent on the segment; otherwise the vehicle moves in the index and
  the result is 0.
\<close>

definition ref_performLaneMove :: "addr \<Rightarrow> World \<Rightarrow> int \<times> World" where
  "ref_performLaneMove a w =
     (case vehicle_at w a of
        None \<Rightarrow> (0, w)
      | Some v \<Rightarrow>
          (case lane_at w (lane_ptr v) of
             None \<Rightarrow> (0, w)
           | Some lane \<Rightarrow>
               (let s = min (min (v_speed v + 1) (v_max_speed v)) (gap_forward v);
                    p = v_position v + s;
                    t = v_time_on_road v + 1
                in if p \<ge> lane_size lane then
                     (t, write_lane (\<lambda>lane. lane\<lparr> sites := (sites lane)(v_position v := None) \<rparr>)
                           (lane_ptr v)
                           (write_vehicle
                              (\<lambda>v. v\<lparr> v_speed := s, v_time_on_road := t, new_position := p \<rparr>)
                              a w))
                   else
                     (0, write_lane
                           (\<lambda>lane. lane\<lparr> sites := (sites lane)(v_position v := None, p \<mapsto> a) \<rparr>)
                           (lane_ptr v)
                           (write_vehicle
                              (\<lambda>v. v\<lparr> v_speed := s, v_time_on_road := t, new_position := p,
                                      v_position := p \<rparr>)
                              a w)))))"

definition ref_getVehicleLane :: "addr \<Rightarrow> World \<Rightarrow> int" where
  "ref_getVehicleLane a w =
     (case vehicle_at w a of
        None \<Rightarrow> 0
      | Some v \<Rightarrow> (case lane_at w (lane_ptr v) of None \<Rightarrow> 0 | Some lane \<Rightarrow> lane_number lane))"

definition ref_getLaneNumber :: "addr \<Rightarrow> World \<Rightarrow> int" where
  "ref_getLaneNumber l w = (case lane_at w l of None \<Rightarrow> 0 | Some lane \<Rightarrow> lane_number lane)"

definition ref_getLane_removeVehicle :: "addr \<Rightarrow> int \<Rightarrow> World \<Rightarrow> World" where
  "ref_getLane_removeVehicle a pos w =
     (case vehicle_at w a of
        None \<Rightarrow> w
      | Some v \<Rightarrow> write_lane (\<lambda>lane. lane\<lparr> sites := (sites lane)(pos := None) \<rparr>) (lane_ptr v) w)"

text \<open>
  The constructor: a new object bound to the lane, with the id and the position given,
  entered in the lane's index at that position, at rest and with no tick on the segment.
\<close>

definition ref_newVehicle :: "addr \<Rightarrow> int \<Rightarrow> int \<Rightarrow> Inputs \<Rightarrow> World \<Rightarrow> addr \<times> World" where
  "ref_newVehicle l ident initial_position inputs w =
     (let a = next_addr w
      in (a, write_lane (\<lambda>lane. lane\<lparr> sites := (sites lane)(initial_position \<mapsto> a) \<rparr>) l
               (w\<lparr> vehicle_at := (vehicle_at w)(a \<mapsto>
                      \<lparr> lane_ptr = l, v_id = ident, v_position = initial_position,
                        v_speed = 0, v_max_speed = max_speed inputs,
                        gap_forward = 0, v_time_on_road = 0,
                        new_position = initial_position \<rparr>),
                    next_addr := a + 1 \<rparr>)))"

definition ref_deleteVehicle :: "addr \<Rightarrow> World \<Rightarrow> World" where
  "ref_deleteVehicle a w = w\<lparr> vehicle_at := (vehicle_at w)(a := None) \<rparr>"

text \<open>
  The spawn over the lanes of the road, here the lanes at the addresses \<open>ls\<close>: in a lane
  whose draw succeeds and whose cell 0 is free, a new vehicle at position 0 with the next
  id.
\<close>

fun ref_spawn_lanes ::
  "Inputs \<Rightarrow> addr list \<Rightarrow> addr list \<Rightarrow> int \<Rightarrow> World \<Rightarrow> addr list \<times> int \<times> World" where
  "ref_spawn_lanes inputs [] vs nid w = (vs, nid, w)"
| "ref_spawn_lanes inputs (l # ls) vs nid w =
     (case lane_at w l of
        None \<Rightarrow> ref_spawn_lanes inputs ls vs nid w
      | Some lane \<Rightarrow>
          (if spawn_draw w \<and> sites lane 0 = None then
             (case ref_newVehicle l nid 0 inputs w of
                (a, w') \<Rightarrow> ref_spawn_lanes inputs ls (vs @ [a]) (nid + 1) w')
           else ref_spawn_lanes inputs ls vs nid w))"

definition ref_ops :: "addr list \<Rightarrow> World ops" where
  "ref_ops road_lanes =
     \<lparr> updateGaps = ref_updateGaps,
       performLaneSwitch = (\<lambda>a w. w),
       performLaneMove = ref_performLaneMove,
       getVehicleLane = ref_getVehicleLane,
       getId = read_vehicle v_id,
       getNewPosition = read_vehicle new_position,
       getPrevPosition = read_vehicle v_position,
       getSpeed = read_vehicle v_speed,
       getTravelTime = (\<lambda>a inputs w. real_of_int (read_vehicle v_time_on_road a w)),
       setSpeed = (\<lambda>a s. write_vehicle (\<lambda>v. v\<lparr> v_speed := s \<rparr>) a),
       setTimeOnRoad = (\<lambda>a t. write_vehicle (\<lambda>v. v\<lparr> v_time_on_road := t \<rparr>) a),
       setTempPosition = (\<lambda>a p. write_vehicle (\<lambda>v. v\<lparr> v_position := p \<rparr>) a),
       getLane_removeVehicle = ref_getLane_removeVehicle,
       getLaneNumber = ref_getLaneNumber,
       newVehicle = ref_newVehicle,
       deleteVehicle = ref_deleteVehicle,
       attemptSpawn = (\<lambda>inputs vs nid w. ref_spawn_lanes inputs road_lanes vs nid w) \<rparr>"

section \<open>Reading a trace\<close>

text \<open>
  The events of one removal loop at a moment when the warm-up test has the value
  \<open>past_warmup\<close>: for each vehicle removed, its \<open>Delete_vehicle\<close>, preceded by exactly one
  \<open>Add_value\<close> when the test holds and by none when it does not, and nothing else. The
  value added is what \<open>getTravelTime\<close> returns for that same vehicle.
\<close>

fun removals :: "'w ops \<Rightarrow> Inputs \<Rightarrow> bool \<Rightarrow> event list \<Rightarrow> bool" where
  "removals ops inputs past_warmup [] = True"
| "removals ops inputs past_warmup (Add_value x # Delete_vehicle a # evs) =
     (past_warmup \<and> (\<exists>w. x = getTravelTime ops a inputs w)
      \<and> removals ops inputs past_warmup evs)"
| "removals ops inputs past_warmup (Delete_vehicle a # evs) =
     (\<not> past_warmup \<and> removals ops inputs past_warmup evs)"
| "removals ops inputs past_warmup (e # evs) = False"

fun added_values :: "event list \<Rightarrow> real list" where
  "added_values [] = []"
| "added_values (Add_value x # evs) = x # added_values evs"
| "added_values (e # evs) = added_values evs"

fun deleted_vehicles :: "event list \<Rightarrow> addr list" where
  "deleted_vehicles [] = []"
| "deleted_vehicles (Delete_vehicle a # evs) = a # deleted_vehicles evs"
| "deleted_vehicles (e # evs) = deleted_vehicles evs"

text \<open>
  The two sends of a batch to the right neighbour, when there is one: the count as an
  \<open>int\<close>, and as many bytes of the records as the \<open>int\<close> product of the count and the size
  of a record says.
\<close>

definition send_events :: "nat \<Rightarrow> nat \<Rightarrow> VehicleData list \<Rightarrow> event list" where
  "send_events rank sz batch =
     (if rank + 1 < sz then
        [MPI_Send (rank + 1) (int_to_bytes (c_int (int (length batch)))),
         MPI_Send (rank + 1)
           (take (nat (c_int (c_int (int (length batch)) * int sizeof_VehicleData)))
              (concat (map VehicleData_to_bytes batch)))]
      else [])"

fun sent_messages :: "event list \<Rightarrow> (nat \<times> byte list) list" where
  "sent_messages [] = []"
| "sent_messages (MPI_Send dest bytes # evs) = (dest, bytes) # sent_messages evs"
| "sent_messages (e # evs) = sent_messages evs"

text \<open>The events of the removal of one vehicle.\<close>

definition removal_events :: "'w ops \<Rightarrow> Inputs \<Rightarrow> addr \<Rightarrow> 'w sim \<Rightarrow> event list" where
  "removal_events ops inputs v st =
     (if time st > warmup_time inputs then [Add_value (getTravelTime ops v inputs (world st))]
      else []) @ [Delete_vehicle v]"

section \<open>The program entry (main)\<close>

text \<open>
  What \<open>main\<close> does up to the call of \<open>run_simulation\<close>, as the list of its effects and
  the way it ends. A launch is the result of \<open>inputs.loadFromFile()\<close>, the road length
  read, and the rank and number of processes that MPI reports. \<open>MPI_Abort\<close> ends the
  processes of the communicator and does not return. The simulation runs, and its ticks
  are executed, only inside \<open>Run_simulation\<close>.
\<close>

record launch =
  load_status :: int
  inputs_length :: int
  mpi_rank :: nat
  mpi_size :: nat

datatype effect =
    MPI_Init
  | Print_stderr string
  | Print_stdout string
  | MPI_Abort int
  | Run_simulation nat nat int

datatype ending = Returned int | Aborted int

definition banner :: "effect list" where
  "banner =
     [Print_stdout ''================================================'',
      Print_stdout ''||    CELLULAR AUTOMATA TRAFFIC SIMULATION    ||'',
      Print_stdout ''================================================'']"

definition main :: "launch \<Rightarrow> effect list \<times> ending" where
  "main l =
     (if load_status l \<noteq> 0 then ([], Returned 1)
      else if mpi_size l < 2 then
        ([MPI_Init, Print_stderr ''It takes at least 2 processes to run the program!'',
          MPI_Abort 1], Aborted 1)
      else
        ([MPI_Init] @ (if mpi_rank l = 0 then banner else [])
           @ [Run_simulation (mpi_rank l) (mpi_size l)
                (road_length_per_process (inputs_length l) (int (mpi_size l))
                   (int (mpi_rank l)))],
         Returned 0))"

definition runs_simulation :: "effect list \<Rightarrow> bool" where
  "runs_simulation effects = list_ex (\<lambda>e. case e of Run_simulation r n len \<Rightarrow> True | _ \<Rightarrow> False) effects"

section \<open>Concrete runs in the reference world\<close>

text \<open>
  One lane, number 0, of 10 cells at address 0, and one vehicle, id 7, at address 5 on
  cell 8 with speed 3, four ticks on the segment; maximal speed 3, warm-up time 5. The
  worker's clock stands at the warm-up time. \<open>ref_head\<close> is this road at rank 0,
  \<open>ref_interior\<close> the same road at a rank above 0 that has received an empty batch.
\<close>

definition ref_inputs :: Inputs where
  "ref_inputs = \<lparr> max_time = 100, warmup_time = 5, max_speed = 3 \<rparr>"

definition ref_world :: World where
  "ref_world =
     \<lparr> vehicle_at = [5 \<mapsto> \<lparr> lane_ptr = 0, v_id = 7, v_position = 8, v_speed = 3,
                           v_max_speed = 3, gap_forward = 0, v_time_on_road = 4,
                           new_position = 8 \<rparr>],
       lane_at = [0 \<mapsto> \<lparr> lane_number = 0, lane_size = 10, sites = [8 \<mapsto> 5] \<rparr>],
       next_addr = 6, spawn_draw = False \<rparr>"

definition ref_head :: "World sim" where
  "ref_head =
     \<lparr> world = ref_world, time = 5, next_id = 8, vehicles = [5], travel_time = [],
       lanes = [0], vehicles_to_remove = [], send_to_right = [], local_vehicles = [],
       local_vehicles_to_remove = [], from_left = [], trace = [] \<rparr>"

definition ref_interior :: "World sim" where
  "ref_interior =
     \<lparr> world = ref_world, time = 5, next_id = 0, vehicles = [], travel_time = [],
       lanes = [0], vehicles_to_remove = [], send_to_right = [], local_vehicles = [5],
       local_vehicles_to_remove = [], from_left = [int_to_bytes 0, []], trace = [] \<rparr>"

text \<open>
  An empty road of one lane at a rank above 0, its clock at \<open>t\<close>, with the messages
  \<open>msgs\<close> arrived from the left.
\<close>

definition ref_empty_world :: "int \<Rightarrow> World" where
  "ref_empty_world len =
     \<lparr> vehicle_at = Map.empty,
       lane_at = [0 \<mapsto> \<lparr> lane_number = 0, lane_size = len, sites = Map.empty \<rparr>],
       next_addr = 1, spawn_draw = False \<rparr>"

definition ref_empty_interior :: "int \<Rightarrow> int \<Rightarrow> byte list list \<Rightarrow> World sim" where
  "ref_empty_interior len t msgs =
     \<lparr> world = ref_empty_world len, time = t, next_id = 0, vehicles = [], travel_time = [],
       lanes = [0], vehicles_to_remove = [], send_to_right = [], local_vehicles = [],
       local_vehicles_to_remove = [], from_left = msgs, trace = [] \<rparr>"

text \<open>The ids of the vehicles at the addresses \<open>vs\<close> of a world.\<close>

definition ids_of :: "addr list \<Rightarrow> World \<Rightarrow> int list" where
  "ids_of vs w = map (\<lambda>a. read_vehicle v_id a w) vs"

text \<open>
  A handoff past the warm-up time on a road of 20 cells on 2 processes cut into segments
  of 10 cells: the clock of both ranks at 6, the vehicle of \<open>ref_head\<close> leaves rank 0,
  and rank 1, its road empty, receives what rank 0 sent.
\<close>

definition late_head :: "World sim" where
  "late_head = ref_head\<lparr> time := 6 \<rparr>"

definition late_head_after :: "World sim" where
  "late_head_after = projr (tick (ref_ops [0]) ref_inputs 0 2 10 late_head)"

definition late_interior :: "World sim" where
  "late_interior = ref_empty_interior 10 6 (map snd (sent_messages (trace late_head_after)))"

definition late_interior_after :: "World sim" where
  "late_interior_after = projr (tick (ref_ops [0]) ref_inputs 1 2 10 late_interior)"

text \<open>
  A road of 6 cells on 3 processes: \<open>main\<close> gives each rank the segment length 1. Rank 0
  holds one vehicle, id 7, at rest on cell 0; the roads of ranks 1 and 2 are empty; the
  clocks stand at 6. \<open>short_middle\<close> is rank 1 with what rank 0 sent in its tick,
  \<open>short_last_received\<close> is rank 2 after it has received and reconstructed what rank 1
  sent in its tick.
\<close>

definition short_head :: "World sim" where
  "short_head =
     \<lparr> world = \<lparr> vehicle_at = [1 \<mapsto> \<lparr> lane_ptr = 0, v_id = 7, v_position = 0, v_speed = 0,
                                      v_max_speed = 3, gap_forward = 0, v_time_on_road = 0,
                                      new_position = 0 \<rparr>],
                 lane_at = [0 \<mapsto> \<lparr> lane_number = 0, lane_size = 1, sites = [0 \<mapsto> 1] \<rparr>],
                 next_addr = 2, spawn_draw = False \<rparr>,
       time = 6, next_id = 8, vehicles = [1], travel_time = [], lanes = [0],
       vehicles_to_remove = [], send_to_right = [], local_vehicles = [],
       local_vehicles_to_remove = [], from_left = [], trace = [] \<rparr>"

definition short_head_after :: "World sim" where
  "short_head_after = projr (tick (ref_ops [0]) ref_inputs 0 3 1 short_head)"

definition short_middle :: "World sim" where
  "short_middle = ref_empty_interior 1 6 (map snd (sent_messages (trace short_head_after)))"

definition short_middle_after :: "World sim" where
  "short_middle_after = projr (tick (ref_ops [0]) ref_inputs 1 3 1 short_middle)"

definition short_last :: "World sim" where
  "short_last = ref_empty_interior 1 6 (map snd (sent_messages (trace short_middle_after)))"

definition short_last_received :: "World sim" where
  "short_last_received =
     projr (reconstruct (ref_ops [0]) ref_inputs
              (send_to_right (projr (receive_batch 1 short_last))) None
              (projr (receive_batch 1 short_last)))"

section \<open>Serialised vehicles\<close>

text \<open>
  A record serialises a vehicle when it is the \<open>vdata\<close> built from that vehicle after a
  move that returned a nonzero time.
\<close>

definition serializes :: "'w ops \<Rightarrow> addr \<Rightarrow> VehicleData \<Rightarrow> bool" where
  "serializes ops v r =
     (\<exists>w t. t \<noteq> 0 \<and> r = make_vdata ops v (getNewPosition ops v w) t w)"

text \<open>
  The expressions of the loop body of a rank above 0 for the vehicle \<open>v\<close> in the world
  \<open>w\<close>: the world after gap update, lane switch and gap update; whether the move returns
  a nonzero time; the test \<open>prev_pos + new_pos < road_length_per_process + max_speed\<close>
  with its two \<open>int\<close> sums; the world after \<open>vehicle->getLane()->removeVehicle(new_pos)\<close>;
  and the record queued.
\<close>

definition sensed :: "'w ops \<Rightarrow> addr \<Rightarrow> 'w \<Rightarrow> 'w" where
  "sensed ops v w = updateGaps ops v (performLaneSwitch ops v (updateGaps ops v w))"

definition leaves_segment :: "'w ops \<Rightarrow> addr \<Rightarrow> 'w \<Rightarrow> bool" where
  "leaves_segment ops v w = (fst (performLaneMove ops v (sensed ops v w)) \<noteq> 0)"

definition in_buffer_zone :: "'w ops \<Rightarrow> Inputs \<Rightarrow> int \<Rightarrow> addr \<Rightarrow> 'w \<Rightarrow> bool" where
  "in_buffer_zone ops inputs length_per_process v w =
     (c_int (getPrevPosition ops v (sensed ops v w)
             + getNewPosition ops v (snd (performLaneMove ops v (sensed ops v w))))
      < c_int (length_per_process + max_speed inputs))"

definition lane_cleared :: "'w ops \<Rightarrow> addr \<Rightarrow> 'w \<Rightarrow> 'w" where
  "lane_cleared ops v w =
     (case performLaneMove ops v (sensed ops v w) of (time_on_road, w4) \<Rightarrow>
        getLane_removeVehicle ops v (getNewPosition ops v w4) w4)"

definition local_record :: "'w ops \<Rightarrow> addr \<Rightarrow> 'w \<Rightarrow> VehicleData" where
  "local_record ops v w =
     (case performLaneMove ops v (sensed ops v w) of (time_on_road, w4) \<Rightarrow>
        make_vdata ops v (getNewPosition ops v w4) time_on_road w4)"

text \<open>
  The state of the vectors at the start of every pass of the \<open>while\<close> loop: nothing is
  marked for removal, and at rank 0 no record is queued.
\<close>

definition loop_state :: "nat \<Rightarrow> 'w sim \<Rightarrow> bool" where
  "loop_state rank st =
     (vehicles_to_remove st = [] \<and> local_vehicles_to_remove st = []
      \<and> (rank = 0 \<longrightarrow> send_to_right st = []))"

section \<open>When a tick completes\<close>

text \<open>
  The records that the two receives of a rank above 0 leave in \<open>send_to_right\<close>, and the
  condition under which both receives succeed: a count message of one \<open>int\<close> that is not
  negative, and a data message of at most as many bytes as the \<open>int\<close> product of the
  count and the size of a record.
\<close>

definition received_records :: "'w sim \<Rightarrow> VehicleData list" where
  "received_records st =
     (case from_left st of
        count_msg # data_msg # rest \<Rightarrow>
          records_of_bytes (nat (bytes_to_int count_msg))
            (receive_into
               (concat (map VehicleData_to_bytes
                  (resize_records (nat (bytes_to_int count_msg)) (send_to_right st))))
               data_msg)
      | _ \<Rightarrow> [])"

definition can_receive :: "'w sim \<Rightarrow> bool" where
  "can_receive st =
     (case from_left st of
        count_msg # data_msg # rest \<Rightarrow>
          length count_msg = 4 \<and> 0 \<le> bytes_to_int count_msg
          \<and> int (length data_msg) \<le> c_int (bytes_to_int count_msg * int sizeof_VehicleData)
      | _ \<Rightarrow> False)"

text \<open>
  A batch of \<open>n\<close> records fits when the number of its bytes is in the range of an \<open>int\<close>:
  then \<open>send_count\<close> and \<open>send_count * sizeof(VehicleData)\<close> are \<open>n\<close> and \<open>20 * n\<close>.
\<close>

definition batch_fits :: "nat \<Rightarrow> bool" where
  "batch_fits n = (int n * int sizeof_VehicleData < 2 ^ 31)"

text \<open>
  The vehicles of which a worker can queue a record in a tick: all its vehicles at rank
  0, and at a rank above 0 those it holds and those it receives.
\<close>

definition held_vehicles :: "nat \<Rightarrow> 'w sim \<Rightarrow> nat" where
  "held_vehicles rank st =
     (if rank = 0 then length (vehicles st)
      else length (local_vehicles st) + length (received_records st))"

text \<open>
  A worker is ready for a tick when its vectors are in the state of the loop; at a rank
  above 0, the batch of its left neighbour has arrived and the first record of the
  batch, if there is one, has the number of one of the worker's lanes; and with a right
  neighbour, a batch of all the vehicles the worker holds would fit.
\<close>

definition ready :: "'w ops \<Rightarrow> nat \<Rightarrow> nat \<Rightarrow> 'w sim \<Rightarrow> bool" where
  "ready ops rank sz st =
     (loop_state rank st
      \<and> (0 < rank \<longrightarrow>
           can_receive st
           \<and> (case received_records st of
                 [] \<Rightarrow> True
               | vdata # rest \<Rightarrow>
                   \<exists>l\<in>set (lanes st). getLaneNumber ops l (world st) = vd_lane vdata))
      \<and> (rank + 1 < sz \<longrightarrow> batch_fits (held_vehicles rank st)))"

text \<open>
  What the loop over the received records pushes to \<open>local_vehicles\<close>, one pointer for
  each record: the vehicle constructed for the record in a lane of its number, or, when
  no lane has that number, the pointer that \<open>new_vehicle\<close> still holds from the record
  before.
\<close>

definition constructed_for :: "'w ops \<Rightarrow> Inputs \<Rightarrow> addr list \<Rightarrow> VehicleData \<Rightarrow> addr \<Rightarrow> bool" where
  "constructed_for ops inputs ls r a =
     (\<exists>l w0 w1. l \<in> set ls \<and> getLaneNumber ops l w0 = vd_lane r
        \<and> newVehicle ops l (vd_id r) (vd_position r) inputs w0 = (a, w1))"

fun pushed_for ::
  "'w ops \<Rightarrow> Inputs \<Rightarrow> addr list \<Rightarrow> addr option \<Rightarrow> VehicleData list \<Rightarrow> addr list \<Rightarrow> bool" where
  "pushed_for ops inputs ls previous [] [] = True"
| "pushed_for ops inputs ls previous (r # rs) (a # as) =
     ((constructed_for ops inputs ls r a
       \<or> (previous = Some a \<and> (\<exists>w. \<forall>l\<in>set ls. getLaneNumber ops l w \<noteq> vd_lane r)))
      \<and> pushed_for ops inputs ls (Some a) rs as)"
| "pushed_for ops inputs ls previous rs as = False"

text \<open>
  The events of the removal loop of rank 0 over the vehicles \<open>vs\<close>, in that order, from
  the world \<open>w\<close>: each vehicle adds its travel time in the world it is deleted from, when
  the warm-up test holds, and is deleted.
\<close>

fun removal_trace :: "'w ops \<Rightarrow> Inputs \<Rightarrow> bool \<Rightarrow> addr list \<Rightarrow> 'w \<Rightarrow> event list" where
  "removal_trace ops inputs past_warmup [] w = []"
| "removal_trace ops inputs past_warmup (v # vs) w =
     (if past_warmup then [Add_value (getTravelTime ops v inputs w)] else [])
     @ [Delete_vehicle v]
     @ removal_trace ops inputs past_warmup vs (deleteVehicle ops v w)"


section \<open>Handoffs of a tick\<close>

text \<open>
  What a pass of the loop body of a rank above 0 does with a vehicle whose move returns
  a nonzero time: the vehicle, the record queued for it, and whether the vehicle is kept
  (the branch of the boundary test that calls \<open>setTempPosition\<close>) or marked for removal.
\<close>

record handoff =
  ho_vehicle :: addr
  ho_record :: VehicleData
  ho_kept :: bool

text \<open>
  A handoff is one of the loop body when, in some world, the move of the vehicle returns
  a nonzero time, the record is the one built there, and the vehicle is kept exactly
  when the boundary test holds there.
\<close>

definition handed_on :: "'w ops \<Rightarrow> Inputs \<Rightarrow> int \<Rightarrow> handoff \<Rightarrow> bool" where
  "handed_on ops inputs length_per_process h =
     (\<exists>w. leaves_segment ops (ho_vehicle h) w
        \<and> ho_record h = local_record ops (ho_vehicle h) w
        \<and> ho_kept h = in_buffer_zone ops inputs length_per_process (ho_vehicle h) w)"

text \<open>The messages received in a trace, each with its source.\<close>

fun received_messages :: "event list \<Rightarrow> (nat \<times> byte list) list" where
  "received_messages [] = []"
| "received_messages (MPI_Recv source bytes # evs) = (source, bytes) # received_messages evs"
| "received_messages (e # evs) = received_messages evs"

text \<open>A message read as an array of \<open>int\<close>s.\<close>

fun ints_of_bytes :: "byte list \<Rightarrow> int list" where
  "ints_of_bytes (b0 # b1 # b2 # b3 # bs) = bytes_to_int [b0, b1, b2, b3] # ints_of_bytes bs"
| "ints_of_bytes bs = []"

text \<open>The five members of a record, in the order of their declaration.\<close>

definition members :: "VehicleData \<Rightarrow> int list" where
  "members r = [vd_lane r, vd_id r, vd_position r, vd_speed r, vd_time_on_road r]"
chapter \<open>Verification\<close>

section \<open>Segment partitioning: results\<close>

lemma sdiv_nonneg_eq_div:
  fixes k l :: int
  assumes "0 \<le> k" "0 < l"
  shows "k sdiv l = k div l"
  using assms by (simp add: signed_divide_int_def sgn_if)

lemma smod_nonneg_eq_mod:
  fixes k l :: int
  assumes "0 \<le> k" "0 < l"
  shows "k smod l = k mod l"
proof -
  have "k smod l = k - k sdiv l * l"
    by (simp add: minus_sdiv_mult_eq_smod)
  also have "\<dots> = k - k div l * l"
    using assms by (simp add: sdiv_nonneg_eq_div)
  also have "\<dots> = k mod l"
    by (simp add: minus_div_mult_eq_mod)
  finally show ?thesis .
qed

lemma road_length_per_process_eq:
  assumes "0 \<le> road_length" "0 < sz"
  shows "road_length_per_process road_length sz rank =
           road_length div sz - 1 + (if rank < road_length mod sz then 1 else 0)"
  using assms
  by (simp add: road_length_per_process_def end_pos_def start_pos_def segment_size_def
      remainder_def Let_def sdiv_nonneg_eq_div smod_nonneg_eq_mod)

text \<open>
  The cells \<open>start_pos \<dots> end_pos\<close> of a rank, both ends included, are \<open>L / N\<close> cells and one
  more for the first \<open>L mod N\<close> ranks, and the cells of rank \<open>r + 1\<close> begin right after
  those of rank \<open>r\<close>: the positions computed do cut the road as intended. The length
  handed on is one cell short of the number of cells between them.
\<close>

lemma cells_of_rank:
  assumes "0 \<le> road_length" "0 < sz"
  shows "end_pos road_length sz rank - start_pos road_length sz rank + 1 =
           road_length div sz + (if rank < road_length mod sz then 1 else 0)"
  using assms
  by (simp add: end_pos_def start_pos_def segment_size_def remainder_def Let_def
      sdiv_nonneg_eq_div smod_nonneg_eq_mod)

lemma cells_contiguous:
  assumes "0 \<le> road_length" "0 < sz" "0 \<le> rank"
  shows "start_pos road_length sz (rank + 1) = end_pos road_length sz rank + 1"
  using assms
  by (simp add: end_pos_def start_pos_def segment_size_def remainder_def Let_def
      sdiv_nonneg_eq_div smod_nonneg_eq_mod algebra_simps min_def)

text \<open>
  C4. The specification gives rank \<open>r\<close> a segment of \<open>L / N\<close> cells, plus one for the first
  \<open>L mod N\<close> ranks, the sizes adding up to \<open>L\<close>. For \<open>L = 10\<close> and \<open>N = 2\<close> that is
  5 cells for each rank. The value \<open>main\<close> computes and hands to the simulation,
  \<open>end_pos - start_pos\<close> with an inclusive \<open>end_pos\<close>, is 4 for each rank: the two
  segment sizes add up to 8, not 10.
\<close>

theorem road_length_per_process_off_by_one:
  "segment_size 10 2 = 5 \<and> remainder 10 2 = 0
   \<and> start_pos 10 2 0 = 0 \<and> end_pos 10 2 0 = 4
   \<and> start_pos 10 2 1 = 5 \<and> end_pos 10 2 1 = 9
   \<and> road_length_per_process 10 2 0 = 4
   \<and> road_length_per_process 10 2 1 = 4
   \<and> road_length_per_process 10 2 0 + road_length_per_process 10 2 1 \<noteq> 10"
  by (simp add: road_length_per_process_def end_pos_def start_pos_def segment_size_def
      remainder_def Let_def sdiv_nonneg_eq_div smod_nonneg_eq_mod)

section \<open>The statistics reduction: results\<close>

lemma mpi_recv_lookup:
  "map_of pending source = Some d \<Longrightarrow>
     \<exists>pending'. mpi_recv source pending = Some (d, pending')
        \<and> (\<forall>s. s \<noteq> source \<longrightarrow> map_of pending' s = map_of pending s)"
  by (induction pending) (auto split: if_splits)

lemma gather_loop_in_rank_order:
  assumes "\<forall>s. source \<le> s \<and> s < sz \<longrightarrow> map_of pending s = Some (sent s)"
  shows "gather_loop source sz pending t = Some (foldl add_to_totals t (map sent [source..<sz]))"
  using assms
proof (induction source sz pending t rule: gather_loop.induct)
  case (1 source sz pending t)
  show ?case
  proof (cases "source < sz")
    case False
    then show ?thesis by (simp add: gather_loop.simps[of source])
  next
    case True
    with 1(2) have "map_of pending source = Some (sent source)" by simp
    from mpi_recv_lookup[OF this] obtain pending' where
      r: "mpi_recv source pending = Some (sent source, pending')"
      and k: "\<forall>s. s \<noteq> source \<longrightarrow> map_of pending' s = map_of pending s" by blast
    have "\<forall>s. source + 1 \<le> s \<and> s < sz \<longrightarrow> map_of pending' s = Some (sent s)"
      using k 1(2) by auto
    from 1(1)[OF True r refl this]
    show ?thesis using True r
      by (subst gather_loop.simps) (simp add: upt_conv_Cons)
  qed
qed


lemma sum_squared_deviations:
  "sum_list (map (\<lambda>x. (x - m)\<^sup>2) xs) =
     sum_list (map (\<lambda>x. x\<^sup>2) xs) - 2 * m * sum_list xs + real (length xs) * m\<^sup>2"
  by (induction xs) (simp_all add: power2_eq_square algebra_simps)

lemma holds_statistic_moments:
  assumes "holds_statistic xs (a, v, n)"
  shows "n = real (length xs)" and "a * n = sum_list xs"
    and "v * n + a * a * n = sum_list (map (\<lambda>x. x\<^sup>2) xs)"
proof -
  show n: "n = real (length xs)"
    using assms by (simp add: holds_statistic_def)
  show "a * n = sum_list xs"
  proof (cases "xs = []")
    case True
    then show ?thesis using n by simp
  next
    case False
    then have "a = mean xs" using assms by (simp add: holds_statistic_def)
    then show ?thesis using False n by (simp add: mean_def)
  qed
  show "v * n + a * a * n = sum_list (map (\<lambda>x. x\<^sup>2) xs)"
  proof (cases "xs = []")
    case True
    then show ?thesis using n by simp
  next
    case False
    then have a: "a = mean xs" and v: "v = pvariance xs"
      using assms by (simp_all add: holds_statistic_def)
    have n0: "n \<noteq> 0" using False n by simp
    have s: "sum_list xs = a * n" using a n n0 by (simp add: mean_def)
    have "v * n = sum_list (map (\<lambda>x. (x - a)\<^sup>2) xs)"
      using v a n n0 by (simp add: pvariance_def)
    also have "\<dots> = sum_list (map (\<lambda>x. x\<^sup>2) xs) - 2 * a * (a * n) + n * a\<^sup>2"
      by (simp add: sum_squared_deviations s n)
    finally show ?thesis by (simp add: power2_eq_square algebra_simps)
  qed
qed

lemma foldl_add_to_totals_moments:
  assumes "list_all2 holds_statistic gs ds"
  shows "total_samples (foldl add_to_totals t ds) = total_samples t + real (length (concat gs))"
    and "total_sum (foldl add_to_totals t ds) = total_sum t + sum_list (concat gs)"
    and "total_squared_sum (foldl add_to_totals t ds) =
           total_squared_sum t + sum_list (map (\<lambda>x. x\<^sup>2) (concat gs))"
  using assms
proof (induction gs ds arbitrary: t rule: list_all2_induct)
  case Nil
  { case 1 show ?case by simp }
  { case 2 show ?case by simp }
  { case 3 show ?case by simp }
next
  case (Cons g gs d ds)
  obtain a v n where d: "d = (a, v, n)" by (cases d)
  note m = holds_statistic_moments[OF Cons.hyps(1)[unfolded d]]
  { case 1 show ?case using Cons.IH(1)[of "add_to_totals t d"] m
      by (simp add: add_to_totals_def d) }
  { case 2 show ?case using Cons.IH(2)[of "add_to_totals t d"] m
      by (simp add: add_to_totals_def d) }
  { case 3 show ?case using Cons.IH(3)[of "add_to_totals t d"] m
      by (simp add: add_to_totals_def d) }
qed

lemma final_statistics_moments:
  assumes "xs \<noteq> []"
    and "total_samples t = real (length xs)"
    and "total_sum t = sum_list xs"
    and "total_squared_sum t = sum_list (map (\<lambda>x. x\<^sup>2) xs)"
  shows "final_statistics t = (mean xs, pvariance xs, real (length xs))"
proof -
  let ?n = "real (length xs)"
  have n0: "?n \<noteq> 0" using assms(1) by simp
  have "pvariance xs =
          (sum_list (map (\<lambda>x. x\<^sup>2) xs) - 2 * mean xs * sum_list xs + ?n * (mean xs)\<^sup>2) / ?n"
    by (simp add: pvariance_def sum_squared_deviations)
  also have "\<dots> = sum_list (map (\<lambda>x. x\<^sup>2) xs) / ?n - mean xs * mean xs"
    using n0 by (simp add: mean_def power2_eq_square field_simps)
  finally show ?thesis
    using assms by (simp add: final_statistics_def Let_def mean_def)
qed

text \<open>
  C1. Let the accumulator of rank 0 hold the exact count, mean and population variance
  of the sample list \<open>g0\<close>, and the triple sent by each rank \<open>s\<close> in \<open>1..size-1\<close> those of
  the sample list \<open>samples s\<close>, with at least one sample overall. Then the head's pooled
  combination returns, over the reals, exactly the mean, the population variance and the
  count of all samples taken together.
\<close>

theorem pooled_statistics_exact:
  assumes "holds_statistic g0 local"
    and "\<forall>s. 1 \<le> s \<and> s < sz \<longrightarrow> map_of pending s = Some (sent s)"
    and "\<forall>s. 1 \<le> s \<and> s < sz \<longrightarrow> holds_statistic (samples s) (sent s)"
    and "g0 @ concat (map samples [1..<sz]) \<noteq> []"
  shows "head_reduce sz local pending =
           Some (mean (g0 @ concat (map samples [1..<sz])),
                 pvariance (g0 @ concat (map samples [1..<sz])),
                 real (length (g0 @ concat (map samples [1..<sz]))))"
proof -
  let ?gs = "map samples [1..<sz]" and ?ds = "map sent [1..<sz]"
  let ?t = "foldl add_to_totals (init_totals local) ?ds"
  obtain a v n where l: "local = (a, v, n)" by (cases local)
  note m0 = holds_statistic_moments[OF assms(1)[unfolded l]]
  have "list_all2 holds_statistic ?gs ?ds"
    using assms(3) by (simp add: list_all2_conv_all_nth)
  note m = foldl_add_to_totals_moments[OF this, of "init_totals local"]
  have g: "gather_loop 1 sz pending (init_totals local) = Some ?t"
    using assms(2) by (rule gather_loop_in_rank_order)
  have "final_statistics ?t =
          (mean (g0 @ concat ?gs), pvariance (g0 @ concat ?gs), real (length (g0 @ concat ?gs)))"
  proof (rule final_statistics_moments[OF assms(4)])
    show "total_samples ?t = real (length (g0 @ concat ?gs))"
      using m(1) m0 by (simp add: init_totals_def l)
    show "total_sum ?t = sum_list (g0 @ concat ?gs)"
      using m(2) m0 by (simp add: init_totals_def l)
    show "total_squared_sum ?t = sum_list (map (\<lambda>x. x\<^sup>2) (g0 @ concat ?gs))"
      using m(3) m0 by (simp add: init_totals_def l)
  qed
  then show ?thesis using g by (simp add: head_reduce_def)
qed

text \<open>
  C10. The head receives from the sources \<open>1, \<dots>, size - 1\<close> in increasing order, whatever
  the order of arrival: when two mailboxes hold for every source the same first triple,
  the head's result is the same for both, namely the totals of its own triple with the
  triples added in rank order. This holds for any arithmetic, associative or not.
\<close>

theorem head_reduce_deterministic:
  assumes "\<forall>s. 1 \<le> s \<and> s < sz \<longrightarrow> map_of pending1 s = Some (sent s)"
    and "\<forall>s. 1 \<le> s \<and> s < sz \<longrightarrow> map_of pending2 s = Some (sent s)"
  shows "head_reduce sz local pending1 =
           Some (final_statistics (foldl add_to_totals (init_totals local) (map sent [1..<sz])))
         \<and> head_reduce sz local pending2 = head_reduce sz local pending1"
  using gather_loop_in_rank_order[OF assms(1), of "init_totals local"]
    gather_loop_in_rank_order[OF assms(2), of "init_totals local"]
  by (simp add: head_reduce_def)


theorem pooled_statistics_exact_witness:
  "holds_statistic [1, 3] (2, 1, 2) \<and> holds_statistic [5] (5, 0, 1)
   \<and> head_reduce 2 (2, 1, 2) [(1, (5, 0, 1))] = Some (3::real, 8 / 3, 3)"
proof -
  have h0: "holds_statistic [1, 3] (2, 1, 2)"
    by (simp add: holds_statistic_def mean_def pvariance_def)
  have h1: "\<forall>s. 1 \<le> s \<and> s < 2 \<longrightarrow>
              map_of [(1::nat, (5::real, 0::real, 1::real))] s = Some ((\<lambda>_. (5, 0, 1)) s)"
    by auto
  have h2: "\<forall>s::nat. 1 \<le> s \<and> s < 2 \<longrightarrow> holds_statistic ((\<lambda>_. [5]) s) ((\<lambda>_. (5, 0, 1)) s)"
    by (simp add: holds_statistic_def mean_def pvariance_def)
  have u: "[Suc 0..<2] = [Suc 0]"
    by (simp add: upt_conv_Cons)
  have h3: "[1, 3] @ concat (map (\<lambda>_. [5::real]) [1..<2]) \<noteq> []"
    by simp
  from pooled_statistics_exact [OF h0 h1 h2 h3]
  have "head_reduce 2 (2, 1, 2) [(1, (5, 0, 1))] =
          Some (mean [1, 3, 5], pvariance [1, 3, 5], real (length [1::real, 3, 5]))"
    by (simp add: u)
  moreover have "holds_statistic [5] (5, 0, 1)"
    by (simp add: holds_statistic_def mean_def pvariance_def)
  ultimately show ?thesis using h0
    by (simp add: mean_def pvariance_def power2_eq_square)
qed

theorem head_reduce_deterministic_witness:
  "head_reduce 3 (1, 0, 2) [(1, (3, 1, 2)), (2, (5, 0, 1))]
        = head_reduce 3 (1, 0, 2) [(2, (5, 0, 1)), (1, (3::real, 1, 2))]
   \<and> head_reduce 3 (1, 0, 2) [(2, (5, 0, 1)), (1, (3::real, 1, 2))] = Some (13 / 5, 66 / 25, 5)"
proof -
  let ?sent = "\<lambda>s::nat. if s = 1 then (3::real, 1::real, 2::real) else (5, 0, 1)"
  have h1: "\<forall>s. 1 \<le> s \<and> s < 3 \<longrightarrow>
      map_of [(2::nat, (5::real, 0::real, 1::real)), (1, (3, 1, 2))] s = Some (?sent s)"
    by auto
  have h2: "\<forall>s. 1 \<le> s \<and> s < 3 \<longrightarrow>
      map_of [(1::nat, (3::real, 1::real, 2::real)), (2, (5, 0, 1))] s = Some (?sent s)"
    by auto
  have u: "[Suc 0..<3] = [Suc 0, 2]"
    by (simp add: upt_conv_Cons)
  from head_reduce_deterministic [OF h1 h2, of "(1, 0, 2)"]
  show ?thesis
    by (simp add: u init_totals_def add_to_totals_def final_statistics_def Let_def)
qed

section \<open>The wire format: results\<close>

lemma length_int_to_bytes: "length (int_to_bytes x) = 4"
  by (simp add: int_to_bytes_def Let_def)

lemma length_VehicleData_to_bytes: "length (VehicleData_to_bytes vd) = sizeof_VehicleData"
  by (simp add: VehicleData_to_bytes_def sizeof_VehicleData_def length_int_to_bytes)

lemma length_concat_VehicleData_to_bytes:
  "length (concat (map VehicleData_to_bytes batch)) = length batch * sizeof_VehicleData"
  by (induction batch) (simp_all add: length_VehicleData_to_bytes)


lemma bytes_of_unsigned:
  fixes u :: int
  assumes "0 \<le> u" "u < 4294967296"
  shows "u mod 256 + 256 * (u div 256 mod 256) + 65536 * (u div 65536 mod 256)
           + 16777216 * (u div 16777216 mod 256) = u"
proof -
  define b c d where "b = u div 256" and "c = u div 65536" and "d = u div 16777216"
  define a' b' c' where "a' = u mod 256" and "b' = b mod 256" and "c' = c mod 256"
  have "b div 256 = c"
    unfolding b_def c_def using zdiv_zmult2_eq[of 256 u 256] by simp
  then have e2: "b = b' + 256 * c"
    unfolding b'_def using mult_div_mod_eq[of 256 b] by simp
  have "c div 256 = d"
    unfolding c_def d_def using zdiv_zmult2_eq[of 256 u 65536] by simp
  then have e3: "c = c' + 256 * d"
    unfolding c'_def using mult_div_mod_eq[of 256 c] by simp
  have e1: "u = a' + 256 * b"
    unfolding a'_def b_def using mult_div_mod_eq[of 256 u] by simp
  have "d \<le> 4294967295 div 16777216"
    unfolding d_def using assms(2) by (intro zdiv_mono1) simp_all
  moreover have "0 \<le> d"
    unfolding d_def using assms(1) by (simp add: pos_imp_zdiv_nonneg_iff)
  ultimately have top: "d mod 256 = d"
    by simp
  have "a' + 256 * b' + 65536 * c' + 16777216 * (d mod 256) = u"
    using e1 e2 e3 top by linarith
  then show ?thesis
    unfolding a'_def b'_def c'_def b_def c_def d_def .
qed


lemma signed_of_unsigned:
  fixes x :: int
  assumes "- 2147483648 \<le> x" "x < 2147483648"
  shows "(if x mod 4294967296 < 2147483648 then x mod 4294967296
          else x mod 4294967296 - 4294967296) = x"
proof (cases "0 \<le> x")
  case True
  then have "x mod 4294967296 = x"
    using assms(2) by simp
  then show ?thesis using assms(2) by simp
next
  case False
  have "(x + 4294967296) mod 4294967296 = x + 4294967296"
    using False assms(1) by (intro mod_pos_pos_trivial) simp_all
  then have "x mod 4294967296 = x + 4294967296"
    by simp
  then show ?thesis using False assms(1) by simp
qed

lemma bytes_to_int_int_to_bytes:
  assumes "in_int_range x"
  shows "bytes_to_int (int_to_bytes x) = x"
proof -
  define u where "u = x mod 4294967296"
  have r: "0 \<le> u" "u < 4294967296" by (simp_all add: u_def)
  have w: "uint (word_of_int k :: byte) = k mod 256" for k
    by (simp add: uint_word_of_int take_bit_eq_mod)
  have "bytes_to_int (int_to_bytes x) =
          (let v = u mod 256 + 256 * (u div 256 mod 256) + 65536 * (u div 65536 mod 256)
                   + 16777216 * (u div 16777216 mod 256)
           in if v < 2147483648 then v else v - 4294967296)"
    by (simp add: bytes_to_int_def int_to_bytes_def Let_def w u_def)
  also have "\<dots> = (if u < 2147483648 then u else u - 4294967296)"
    by (simp only: bytes_of_unsigned[OF r] Let_def)
  also have "\<dots> = x"
    unfolding u_def using assms unfolding in_int_range_def
    by (intro signed_of_unsigned) simp_all
  finally show ?thesis .
qed

lemma bytes_to_VehicleData_VehicleData_to_bytes:
  assumes "VehicleData_in_range vd"
  shows "bytes_to_VehicleData (VehicleData_to_bytes vd) = vd"
  using assms
  by (simp add: bytes_to_VehicleData_def VehicleData_to_bytes_def VehicleData_in_range_def
      length_int_to_bytes bytes_to_int_int_to_bytes)

lemma records_of_bytes_concat:
  assumes "list_all VehicleData_in_range batch"
  shows "records_of_bytes (length batch) (concat (map VehicleData_to_bytes batch)) = batch"
  using assms
  by (induction batch)
    (simp_all add: length_VehicleData_to_bytes bytes_to_VehicleData_VehicleData_to_bytes)

lemma in_int_range_c_int: "in_int_range (c_int x)"
proof -
  have "0 \<le> (x + 2147483648) mod 4294967296" "(x + 2147483648) mod 4294967296 < 4294967296"
    by simp_all
  then show ?thesis
    by (simp add: in_int_range_def c_int_def)
qed

lemma c_int_in_range:
  assumes "in_int_range x"
  shows "c_int x = x"
proof -
  have "0 \<le> x + 2147483648" "x + 2147483648 < 4294967296"
    using assms by (simp_all add: in_int_range_def)
  then have "(x + 2147483648) mod 4294967296 = x + 2147483648"
    by (rule mod_pos_pos_trivial)
  then show ?thesis
    by (simp add: c_int_def)
qed

lemma c_int_le:
  assumes "0 \<le> x"
  shows "c_int x \<le> x"
proof -
  have "(x + 2147483648) mod 4294967296 \<le> x + 2147483648"
    using assms by (intro zmod_le_nonneg_dividend) simp
  then show ?thesis
    by (simp add: c_int_def)
qed

lemma length_resize_records: "length (resize_records n records) = n"
  by (simp add: resize_records_def)

lemma batch_fits_counts:
  assumes "batch_fits n"
  shows "c_int (int n) = int n"
    and "c_int (c_int (int n) * int sizeof_VehicleData) = int n * int sizeof_VehicleData"
    and "c_int (int n * int sizeof_VehicleData) = int n * int sizeof_VehicleData"
proof -
  have r: "int n * 20 < 2147483648"
    using assms by (simp add: batch_fits_def sizeof_VehicleData_def)
  then have "in_int_range (int n)"
    by (simp add: in_int_range_def)
  then show a: "c_int (int n) = int n"
    by (rule c_int_in_range)
  have "in_int_range (int n * 20)"
    using r by (simp add: in_int_range_def)
  then have b: "c_int (int n * 20) = int n * 20"
    by (rule c_int_in_range)
  then show "c_int (c_int (int n) * int sizeof_VehicleData) = int n * int sizeof_VehicleData"
    by (simp add: a sizeof_VehicleData_def)
  from b show "c_int (int n * int sizeof_VehicleData) = int n * int sizeof_VehicleData"
    by (simp add: sizeof_VehicleData_def)
qed

lemma batch_fits_mono: "batch_fits n \<Longrightarrow> m \<le> n \<Longrightarrow> batch_fits m"
proof -
  assume a: "batch_fits n" and b: "m \<le> n"
  have "int m * int sizeof_VehicleData \<le> int n * int sizeof_VehicleData"
    using b by (simp add: sizeof_VehicleData_def)
  with a show ?thesis
    by (simp add: batch_fits_def)
qed
section \<open>The events of a tick\<close>

lemma removals_append:
  "removals ops inputs p xs \<Longrightarrow> removals ops inputs p ys \<Longrightarrow> removals ops inputs p (xs @ ys)"
  by (induction ops inputs p xs rule: removals.induct) auto

lemma added_values_append: "added_values (xs @ ys) = added_values xs @ added_values ys"
  by (induction xs rule: added_values.induct) simp_all

lemma deleted_vehicles_append:
  "deleted_vehicles (xs @ ys) = deleted_vehicles xs @ deleted_vehicles ys"
  by (induction xs rule: deleted_vehicles.induct) simp_all

lemma sent_messages_append: "sent_messages (xs @ ys) = sent_messages xs @ sent_messages ys"
  by (induction xs rule: sent_messages.induct) simp_all

lemma removals_counts:
  "removals ops inputs p evs \<Longrightarrow>
     length (added_values evs) = (if p then length (deleted_vehicles evs) else 0)"
  by (induction ops inputs p evs rule: removals.induct) auto

lemma record_and_delete_fields:
  "trace (record_and_delete ops inputs v st) = trace st @ removal_events ops inputs v st"
  "travel_time (record_and_delete ops inputs v st) =
     travel_time st @ added_values (removal_events ops inputs v st)"
  "time (record_and_delete ops inputs v st) = time st"
  "vehicles (record_and_delete ops inputs v st) = vehicles st"
  "local_vehicles (record_and_delete ops inputs v st) = local_vehicles st"
  "send_to_right (record_and_delete ops inputs v st) = send_to_right st"
  "from_left (record_and_delete ops inputs v st) = from_left st"
  "lanes (record_and_delete ops inputs v st) = lanes st"
  by (simp_all add: record_and_delete_def removal_events_def Let_def)

lemma removals_removal_events:
  "removals ops inputs (time st > warmup_time inputs) (removal_events ops inputs v st)"
  by (auto simp: removal_events_def)

lemma remove_finished_trace:
  assumes "remove_finished ops inputs indices st = Inr st'"
  shows "\<exists>evs. trace st' = trace st @ evs
           \<and> removals ops inputs (time st > warmup_time inputs) evs
           \<and> travel_time st' = travel_time st @ added_values evs
           \<and> length (deleted_vehicles evs) = length indices
           \<and> time st' = time st \<and> send_to_right st' = send_to_right st
           \<and> from_left st' = from_left st"
  using assms
proof (induction indices arbitrary: st)
  case Nil
  then show ?case by simp
next
  case (Cons index rest)
  let ?v = "vehicles st ! index"
  let ?st1 = "(record_and_delete ops inputs ?v st)\<lparr> vehicles := erase index (vehicles st) \<rparr>"
  from Cons.prems have r: "remove_finished ops inputs rest ?st1 = Inr st'"
    by (simp split: if_splits)
  from Cons.IH[OF r] obtain evs where
    e: "trace st' = trace ?st1 @ evs" "removals ops inputs (time ?st1 > warmup_time inputs) evs"
       "travel_time st' = travel_time ?st1 @ added_values evs"
       "length (deleted_vehicles evs) = length rest"
       "time st' = time ?st1" "send_to_right st' = send_to_right ?st1"
       "from_left st' = from_left ?st1"
    by blast
  let ?evs = "removal_events ops inputs ?v st @ evs"
  have "trace st' = trace st @ ?evs"
    using e(1) by (simp add: record_and_delete_fields)
  moreover have "removals ops inputs (time st > warmup_time inputs) ?evs"
    using e(2) removals_removal_events[of ops inputs st ?v]
    by (simp add: record_and_delete_fields removals_append)
  moreover have "travel_time st' = travel_time st @ added_values ?evs"
    using e(3) by (simp add: record_and_delete_fields added_values_append)
  moreover have "length (deleted_vehicles ?evs) = length (index # rest)"
    using e(4) by (simp add: deleted_vehicles_append removal_events_def)
  moreover have "time st' = time st" "send_to_right st' = send_to_right st"
    "from_left st' = from_left st"
    using e(5,6,7) by (simp_all add: record_and_delete_fields)
  ultimately show ?case by blast
qed


lemma remove_local_trace:
  assumes "remove_local ops inputs indices st = Inr st'"
  shows "\<exists>evs. trace st' = trace st @ evs
           \<and> removals ops inputs (time st > warmup_time inputs) evs
           \<and> travel_time st' = travel_time st @ added_values evs
           \<and> length (deleted_vehicles evs) = length indices
           \<and> time st' = time st \<and> send_to_right st' = send_to_right st
           \<and> from_left st' = from_left st"
  using assms
proof (induction indices arbitrary: st)
  case Nil
  then show ?case by simp
next
  case (Cons index rest)
  let ?v = "local_vehicles st ! index"
  let ?st1 = "(record_and_delete ops inputs ?v st)
                \<lparr> local_vehicles := erase index (local_vehicles st) \<rparr>"
  from Cons.prems have r: "remove_local ops inputs rest ?st1 = Inr st'"
    by (simp split: if_splits)
  from Cons.IH[OF r] obtain evs where
    e: "trace st' = trace ?st1 @ evs" "removals ops inputs (time ?st1 > warmup_time inputs) evs"
       "travel_time st' = travel_time ?st1 @ added_values evs"
       "length (deleted_vehicles evs) = length rest"
       "time st' = time ?st1" "send_to_right st' = send_to_right ?st1"
       "from_left st' = from_left ?st1"
    by blast
  let ?evs = "removal_events ops inputs ?v st @ evs"
  have "trace st' = trace st @ ?evs"
    using e(1) by (simp add: record_and_delete_fields)
  moreover have "removals ops inputs (time st > warmup_time inputs) ?evs"
    using e(2) removals_removal_events[of ops inputs st ?v]
    by (simp add: record_and_delete_fields removals_append)
  moreover have "travel_time st' = travel_time st @ added_values ?evs"
    using e(3) by (simp add: record_and_delete_fields added_values_append)
  moreover have "length (deleted_vehicles ?evs) = length (index # rest)"
    using e(4) by (simp add: deleted_vehicles_append removal_events_def)
  moreover have "time st' = time st" "send_to_right st' = send_to_right st"
    "from_left st' = from_left st"
    using e(5,6,7) by (simp_all add: record_and_delete_fields)
  ultimately show ?case by blast
qed

lemma update_one_fields:
  "trace (update_one ops inputs L i st) = trace st"
  "travel_time (update_one ops inputs L i st) = travel_time st"
  "time (update_one ops inputs L i st) = time st"
  "from_left (update_one ops inputs L i st) = from_left st"
  "vehicles (update_one ops inputs L i st) = vehicles st"
  by (simp_all add: update_one_def Let_def split: prod.split)

lemma local_body_trace:
  assumes "local_body ops inputs L i st = Inr st'"
  shows "\<exists>evs. trace st' = trace st @ evs
           \<and> removals ops inputs (time st > warmup_time inputs) evs
           \<and> travel_time st' = travel_time st @ added_values evs
           \<and> time st' = time st \<and> from_left st' = from_left st"
proof -
  let ?st2 = "update_one ops inputs L i st"
  from assms obtain st3 where
    r: "remove_local ops inputs (rev (sort (local_vehicles_to_remove ?st2))) ?st2 = Inr st3"
    and s: "st' = st3\<lparr> local_vehicles_to_remove := [] \<rparr>"
    by (auto simp: local_body_def Let_def split: sum.splits)
  from remove_local_trace[OF r] show ?thesis
    by (auto simp: update_one_fields s)
qed

lemma update_local_trace:
  assumes "update_local ops inputs L i st = Inr st'"
  shows "\<exists>evs. trace st' = trace st @ evs
           \<and> removals ops inputs (time st > warmup_time inputs) evs
           \<and> travel_time st' = travel_time st @ added_values evs
           \<and> time st' = time st \<and> from_left st' = from_left st"
  using assms
proof (induction ops inputs L i st rule: update_local.induct)
  case (1 ops inputs L i st)
  show ?case
  proof (cases "i < length (local_vehicles st)")
    case False
    with 1(2) have "st' = st"
      by (simp add: update_local.simps[of ops inputs L i st])
    then show ?thesis by simp
  next
    case True
    from True 1(2) obtain st3 where
      r: "local_body ops inputs L i st = Inr st3"
      and u: "update_local ops inputs L (i + 1) st3 = Inr st'"
      by (simp add: update_local.simps[of ops inputs L i st] split: sum.splits)
    from local_body_trace[OF r] obtain evs1 where
      a: "trace st3 = trace st @ evs1" "removals ops inputs (time st > warmup_time inputs) evs1"
         "travel_time st3 = travel_time st @ added_values evs1"
         "time st3 = time st" "from_left st3 = from_left st"
      by auto
    from 1(1)[OF True r u] obtain evs2 where
      b: "trace st' = trace st3 @ evs2" "removals ops inputs (time st3 > warmup_time inputs) evs2"
         "travel_time st' = travel_time st3 @ added_values evs2"
         "time st' = time st3" "from_left st' = from_left st3"
      by auto
    have "trace st' = trace st @ (evs1 @ evs2)"
      using a(1) b(1) by simp
    moreover have "removals ops inputs (time st > warmup_time inputs) (evs1 @ evs2)"
      using a(2,4) b(2) by (simp add: removals_append)
    moreover have "travel_time st' = travel_time st @ added_values (evs1 @ evs2)"
      using a(3) b(3) by (simp add: added_values_append)
    moreover have "time st' = time st" "from_left st' = from_left st"
      using a(4,5) b(4,5) by simp_all
    ultimately show ?thesis by blast
  qed
qed

lemma receive_batch_fields:
  assumes "receive_batch neighbor_left st = Inr st1"
  shows "\<exists>count_msg data_msg.
           trace st1 = trace st @ [MPI_Recv neighbor_left count_msg, MPI_Recv neighbor_left data_msg]
           \<and> from_left st = count_msg # data_msg # from_left st1"
    and "travel_time st1 = travel_time st" and "time st1 = time st"
    and "local_vehicles st1 = local_vehicles st" and "world st1 = world st"
    and "lanes st1 = lanes st"
  using assms
  by (auto simp: receive_batch_def Let_def split: list.splits if_splits)

lemma reconstruct_fields:
  assumes "reconstruct ops inputs batch new_vehicle st = Inr st2"
  shows "trace st2 = trace st \<and> travel_time st2 = travel_time st \<and> time st2 = time st
         \<and> from_left st2 = from_left st \<and> lanes st2 = lanes st"
  using assms
proof (induction batch arbitrary: new_vehicle st)
  case Nil
  then show ?case by simp
next
  case (Cons vdata rest)
  then show ?case
    by (fastforce split: prod.splits option.splits)
qed

lemma lane_move_all_fields:
  "trace (lane_move_all ops n vs st) = trace st
   \<and> travel_time (lane_move_all ops n vs st) = travel_time st
   \<and> time (lane_move_all ops n vs st) = time st
   \<and> vehicles (lane_move_all ops n vs st) = vehicles st
   \<and> from_left (lane_move_all ops n vs st) = from_left st"
  by (induction vs arbitrary: n st) (simp_all split: prod.split)

lemma head_update_fields:
  "trace (head_update ops st) = trace st"
  "travel_time (head_update ops st) = travel_time st"
  "time (head_update ops st) = time st"
  "vehicles (head_update ops st) = vehicles st"
  by (simp_all add: head_update_def lane_move_all_fields)

lemma send_batch_result:
  assumes "send_batch rank sz st = Inr st2"
  shows "st2 = st\<lparr> trace := trace st @ send_events rank sz (send_to_right st),
                   send_to_right := (if rank + 1 < sz then [] else send_to_right st) \<rparr>"
  using assms by (auto simp: send_batch_def send_events_def Let_def split: if_splits)

lemma tick_head_trace:
  assumes "tick ops inputs 0 sz L st = Inr st'"
  shows "\<exists>evs. trace st' = trace st @ send_events 0 sz (send_to_right (head_update ops st))
                    @ [Time_increment] @ evs @ [Attempt_spawn]
           \<and> removals ops inputs (c_int (time st + 1) > warmup_time inputs) evs
           \<and> travel_time st' = travel_time st @ added_values evs
           \<and> length (deleted_vehicles evs) = length (vehicles_to_remove (head_update ops st))
           \<and> time st' = c_int (time st + 1)"
proof -
  from assms obtain sent st3 where
    b: "send_batch 0 sz (head_update ops st) = Inr sent"
    and r: "remove_finished ops inputs (rev (sort (vehicles_to_remove (increment_time sent))))
              (increment_time sent) = Inr st3"
    and s: "st' = spawn ops inputs (st3\<lparr> vehicles_to_remove := [] \<rparr>)"
    by (auto simp: tick_def update_phase_def head_finish_def Let_def split: sum.splits)
  let ?st2 = "increment_time sent"
  have f: "trace ?st2 = trace st @ send_events 0 sz (send_to_right (head_update ops st))
                          @ [Time_increment]"
    "travel_time ?st2 = travel_time st" "time ?st2 = c_int (time st + 1)"
    "vehicles_to_remove ?st2 = vehicles_to_remove (head_update ops st)"
    by (simp_all add: send_batch_result[OF b] increment_time_def head_update_fields)
  from remove_finished_trace[OF r] obtain evs where
    e: "trace st3 = trace ?st2 @ evs" "removals ops inputs (time ?st2 > warmup_time inputs) evs"
       "travel_time st3 = travel_time ?st2 @ added_values evs"
       "length (deleted_vehicles evs) = length (rev (sort (vehicles_to_remove ?st2)))"
       "time st3 = time ?st2"
    by blast
  have "trace st' = trace st3 @ [Attempt_spawn]" "travel_time st' = travel_time st3"
    "time st' = time st3"
    by (simp_all add: s spawn_def split: prod.split)
  with e f show ?thesis by auto
qed

lemma tick_interior_trace:
  assumes "0 < rank" and "tick ops inputs rank sz L st = Inr st'"
  shows "\<exists>count_msg data_msg evs batch.
           trace st' = trace st @ [MPI_Recv (rank - 1) count_msg, MPI_Recv (rank - 1) data_msg]
                    @ evs @ send_events rank sz batch @ [Time_increment]
           \<and> from_left st = count_msg # data_msg # from_left st'
           \<and> removals ops inputs (time st > warmup_time inputs) evs
           \<and> travel_time st' = travel_time st @ added_values evs
           \<and> time st' = c_int (time st + 1)"
proof -
  from assms obtain st1 st2 st3 sent where
    a: "receive_batch (rank - 1) st = Inr st1"
    and b: "reconstruct ops inputs (send_to_right st1) None st1 = Inr st2"
    and c: "update_local ops inputs L 0 (st2\<lparr> send_to_right := [] \<rparr>) = Inr st3"
    and sb: "send_batch rank sz st3 = Inr sent"
    and d: "st' = increment_time sent"
    by (auto simp: tick_def update_phase_def interior_update_def Let_def split: sum.splits)
  from receive_batch_fields[OF a] obtain count_msg data_msg where
    a1: "trace st1 = trace st @ [MPI_Recv (rank - 1) count_msg, MPI_Recv (rank - 1) data_msg]"
        "from_left st = count_msg # data_msg # from_left st1"
        "travel_time st1 = travel_time st" "time st1 = time st"
    by blast
  note b1 = reconstruct_fields[OF b]
  from update_local_trace[OF c] obtain evs where
    c1: "trace st3 = trace st2 @ evs" "removals ops inputs (time st2 > warmup_time inputs) evs"
        "travel_time st3 = travel_time st2 @ added_values evs"
        "time st3 = time st2" "from_left st3 = from_left st2"
    by auto
  have "trace st' = trace st3 @ send_events rank sz (send_to_right st3) @ [Time_increment]"
    "travel_time st' = travel_time st3" "time st' = c_int (time st3 + 1)" "from_left st' = from_left st3"
    by (simp_all add: d send_batch_result[OF sb] increment_time_def)
  with a1 b1 c1 show ?thesis by auto
qed
lemma removals_count_spawn: "removals ops inputs p evs \<Longrightarrow> count_list evs Attempt_spawn = 0"
  by (induction ops inputs p evs rule: removals.induct) auto

lemma send_events_count_spawn: "count_list (send_events rank sz batch) Attempt_spawn = 0"
  by (simp add: send_events_def)

lemma removals_sent: "removals ops inputs p evs \<Longrightarrow> sent_messages evs = []"
  by (induction ops inputs p evs rule: removals.induct) auto

lemma send_events_fits:
  assumes "batch_fits (length batch)"
  shows "send_events rank sz batch =
     (if rank + 1 < sz then
        [MPI_Send (rank + 1) (int_to_bytes (int (length batch))),
         MPI_Send (rank + 1) (concat (map VehicleData_to_bytes batch))]
      else [])"
proof -
  have "nat (int (length batch) * int sizeof_VehicleData) = length batch * sizeof_VehicleData"
    by (simp add: nat_mult_distrib)
  then show ?thesis
    by (simp add: send_events_def batch_fits_counts[OF assms]
        length_concat_VehicleData_to_bytes)
qed

lemma send_batch_fits:
  assumes "rank + 1 < sz \<longrightarrow> batch_fits (length (send_to_right st))"
  shows "\<exists>sent. send_batch rank sz st = Inr sent"
proof (cases "rank + 1 < sz")
  case True
  with assms have "batch_fits (length (send_to_right st))" by simp
  have "0 \<le> int (length (send_to_right st)) * int sizeof_VehicleData"
    by simp
  with batch_fits_counts[OF \<open>batch_fits (length (send_to_right st))\<close>] True show ?thesis
    by (simp add: send_batch_def Let_def not_less)
next
  case False
  then show ?thesis
    by (simp add: send_batch_def Let_def)
qed

lemma sent_messages_send_events:
  "sent_messages (send_events rank sz batch) =
     (if rank + 1 < sz then
        [(rank + 1, int_to_bytes (c_int (int (length batch)))),
         (rank + 1, take (nat (c_int (c_int (int (length batch)) * int sizeof_VehicleData)))
                      (concat (map VehicleData_to_bytes batch)))]
      else [])"
  by (simp add: send_events_def)
section \<open>The program entry: results\<close>

lemma too_few_processes_never_run:
  assumes "mpi_size l < 2"
  shows "\<not> runs_simulation (fst (main l))"
  using assms by (simp add: main_def runs_simulation_def)

lemma load_failure_returns:
  assumes "load_status l \<noteq> 0"
  shows "main l = ([], Returned 1)"
  using assms by (simp add: main_def)

text \<open>
  C6. A launch gets to know its number of processes once the configuration is loaded
  and MPI initialised. For every such launch with fewer than 2 processes the program
  prints the diagnostic and aborts all processes with code 1, and that is all it does:
  the simulation is not constructed and no tick is executed.
\<close>

theorem too_few_processes_abort:
  assumes "load_status l = 0" and "mpi_size l < 2"
  shows "main l = ([MPI_Init,
                    Print_stderr ''It takes at least 2 processes to run the program!'',
                    MPI_Abort 1], Aborted 1)
         \<and> \<not> runs_simulation (fst (main l))"
  using assms by (simp add: main_def runs_simulation_def)

theorem too_few_processes_abort_witness:
  "main \<lparr> load_status = 0, inputs_length = 100, mpi_rank = 0, mpi_size = 1 \<rparr>
       = ([MPI_Init, Print_stderr ''It takes at least 2 processes to run the program!'',
           MPI_Abort 1], Aborted 1)
   \<and> \<not> runs_simulation
        (fst (main \<lparr> load_status = 0, inputs_length = 100, mpi_rank = 0, mpi_size = 1 \<rparr>))"
proof -
  have "load_status \<lparr> load_status = 0, inputs_length = 100, mpi_rank = 0, mpi_size = 1 \<rparr> = 0"
    and "mpi_size \<lparr> load_status = 0, inputs_length = 100, mpi_rank = 0, mpi_size = 1 \<rparr> < 2"
    by simp_all
  from too_few_processes_abort [OF this] show ?thesis
    by (simp add: runs_simulation_def)
qed

section \<open>Reconstruction of received vehicles: results\<close>

lemma bind_to_lane_cases:
  "(bind_to_lane ops inputs vdata ls (nv, w) = (nv, w)
      \<and> (\<forall>l\<in>set ls. getLaneNumber ops l w \<noteq> vd_lane vdata))
   \<or> (\<exists>l w0 a w1. l \<in> set ls \<and> getLaneNumber ops l w0 = vd_lane vdata
         \<and> newVehicle ops l (vd_id vdata) (vd_position vdata) inputs w0 = (a, w1)
         \<and> bind_to_lane ops inputs vdata ls (nv, w) = (Some a, w1))"
proof (induction ls arbitrary: nv w)
  case Nil
  show ?case by simp
next
  case (Cons l ls)
  show ?case
  proof (cases "getLaneNumber ops l w = vd_lane vdata")
    case False
    with Cons[of nv w] show ?thesis by auto
  next
    case True
    obtain a w' where n: "newVehicle ops l (vd_id vdata) (vd_position vdata) inputs w = (a, w')"
      by (cases "newVehicle ops l (vd_id vdata) (vd_position vdata) inputs w")
    from Cons[of "Some a" w'] show ?thesis
    proof
      assume "bind_to_lane ops inputs vdata ls (Some a, w') = (Some a, w')
                \<and> (\<forall>l\<in>set ls. getLaneNumber ops l w' \<noteq> vd_lane vdata)"
      then have "bind_to_lane ops inputs vdata (l # ls) (nv, w) = (Some a, w')"
        using True n by simp
      with True n show ?thesis by (intro disjI2 exI[of _ l] exI[of _ w] exI[of _ a] exI[of _ w']) simp
    next
      assume "\<exists>l w0 a' w1. l \<in> set ls \<and> getLaneNumber ops l w0 = vd_lane vdata
                \<and> newVehicle ops l (vd_id vdata) (vd_position vdata) inputs w0 = (a', w1)
                \<and> bind_to_lane ops inputs vdata ls (Some a, w') = (Some a', w1)"
      then show ?thesis using True n by auto
    qed
  qed
qed

text \<open>
  C9. When the lane number of an inbound record is the number of at least one lane of
  the receiving worker, the loop over the lanes assigns \<open>new_vehicle\<close>: the vehicle pushed
  to \<open>local_vehicles\<close> is the one the constructor returned for a lane with that number,
  the id and the position of the record, whatever \<open>new_vehicle\<close> held before; the use of
  an unassigned \<open>new_vehicle\<close> does not occur.
\<close>

theorem reconstruct_binds_matching_lane:
  assumes "\<exists>l\<in>set (lanes st). getLaneNumber ops l (world st) = vd_lane vdata"
  shows "\<exists>l w0 a w1. l \<in> set (lanes st) \<and> getLaneNumber ops l w0 = vd_lane vdata
           \<and> newVehicle ops l (vd_id vdata) (vd_position vdata) inputs w0 = (a, w1)
           \<and> reconstruct ops inputs (vdata # rest) new_vehicle st =
               reconstruct ops inputs rest (Some a)
                 (st\<lparr> world := setTimeOnRoad ops a (vd_time_on_road vdata)
                                  (setSpeed ops a (vd_speed vdata) w1),
                     local_vehicles := local_vehicles st @ [a] \<rparr>)
           \<and> reconstruct ops inputs [vdata] new_vehicle st =
               Inr (st\<lparr> world := setTimeOnRoad ops a (vd_time_on_road vdata)
                                  (setSpeed ops a (vd_speed vdata) w1),
                     local_vehicles := local_vehicles st @ [a] \<rparr>)"
proof -
  from bind_to_lane_cases[of ops inputs vdata "lanes st" new_vehicle "world st"] assms
  obtain l w0 a w1 where
    "l \<in> set (lanes st)" "getLaneNumber ops l w0 = vd_lane vdata"
    "newVehicle ops l (vd_id vdata) (vd_position vdata) inputs w0 = (a, w1)"
    "bind_to_lane ops inputs vdata (lanes st) (new_vehicle, world st) = (Some a, w1)"
    by blast
  then show ?thesis
    by (intro exI[of _ l] exI[of _ w0] exI[of _ a] exI[of _ w1]) simp
qed



theorem reconstruct_binds_matching_lane_witness:
  "\<exists>a w. reconstruct (ref_ops [0]) ref_inputs
            [\<lparr> vd_lane = 0, vd_id = 7, vd_position = 3, vd_speed = 2, vd_time_on_road = 4 \<rparr>]
            None (ref_empty_interior 10 6 [])
          = Inr ((ref_empty_interior 10 6 [])
                   \<lparr> world := w,
                     local_vehicles := local_vehicles (ref_empty_interior 10 6 []) @ [a] \<rparr>)"
proof -
  have "\<exists>l\<in>set (lanes (ref_empty_interior 10 6 [])).
          getLaneNumber (ref_ops [0]) l (world (ref_empty_interior 10 6 []))
            = vd_lane \<lparr> vd_lane = 0, vd_id = 7, vd_position = 3, vd_speed = 2,
                        vd_time_on_road = 4 \<rparr>"
    by (simp add: ref_empty_interior_def ref_empty_world_def ref_ops_def ref_getLaneNumber_def)
  from reconstruct_binds_matching_lane [OF this, of ref_inputs "[]" None]
  show ?thesis by blast
qed

section \<open>Which vehicles a tick removes\<close>

lemma lane_move_all_marks:
  "\<exists>marks recs.
      vehicles_to_remove (lane_move_all ops n vs st) = vehicles_to_remove st @ marks
      \<and> send_to_right (lane_move_all ops n vs st) = send_to_right st @ recs
      \<and> sorted_wrt (<) marks \<and> (\<forall>m\<in>set marks. n \<le> m \<and> m < n + length vs)
      \<and> list_all2 (\<lambda>m r. n \<le> m \<and> serializes ops (vs ! (m - n)) r) marks recs"
proof (induction vs arbitrary: n st)
  case Nil
  show ?case by simp
next
  case (Cons v vs)
  obtain t w where p: "performLaneMove ops v (world st) = (t, w)"
    by (cases "performLaneMove ops v (world st)")
  let ?r = "make_vdata ops v (getNewPosition ops v w) t w"
  let ?st1 = "if t \<noteq> 0 then
                st\<lparr> world := w, vehicles_to_remove := vehicles_to_remove st @ [n],
                    send_to_right := send_to_right st @ [?r] \<rparr>
              else st\<lparr> world := w \<rparr>"
  have u: "lane_move_all ops n (v # vs) st = lane_move_all ops (n + 1) vs ?st1"
    using p by simp
  from Cons[of "n + 1" ?st1] obtain marks recs where
    m: "vehicles_to_remove (lane_move_all ops (n + 1) vs ?st1) = vehicles_to_remove ?st1 @ marks"
       "send_to_right (lane_move_all ops (n + 1) vs ?st1) = send_to_right ?st1 @ recs"
       "sorted_wrt (<) marks" "\<forall>m\<in>set marks. n + 1 \<le> m \<and> m < n + 1 + length vs"
       "list_all2 (\<lambda>m r. n + 1 \<le> m \<and> serializes ops (vs ! (m - (n + 1))) r) marks recs"
    by blast
  have shift: "list_all2 (\<lambda>m r. n \<le> m \<and> serializes ops ((v # vs) ! (m - n)) r) marks recs"
  proof (rule list_all2_mono[OF m(5)])
    fix m r
    assume a: "n + 1 \<le> m \<and> serializes ops (vs ! (m - (n + 1))) r"
    then have "n + 1 \<le> m"
      by simp
    then have "m - n = Suc (m - (n + 1))"
      by arith
    then have "(v # vs) ! (m - n) = vs ! (m - (n + 1))"
      by (simp only: nth_Cons_Suc)
    with a show "n \<le> m \<and> serializes ops ((v # vs) ! (m - n)) r"
      by simp
  qed
  show ?case
  proof (cases "t = 0")
    case True
    with u m shift show ?thesis
      by (intro exI[of _ marks] exI[of _ recs]) auto
  next
    case False
    then have "serializes ops v ?r"
      unfolding serializes_def by blast
    with False u m shift show ?thesis
      by (intro exI[of _ "n # marks"] exI[of _ "?r # recs"]) auto
  qed
qed

lemma head_update_marks:
  assumes "vehicles_to_remove st = []" and "send_to_right st = []"
  shows "sorted_wrt (<) (vehicles_to_remove (head_update ops st))
         \<and> (\<forall>m\<in>set (vehicles_to_remove (head_update ops st)). m < length (vehicles st))
         \<and> list_all2 (\<lambda>m r. serializes ops (vehicles st ! m) r)
              (vehicles_to_remove (head_update ops st)) (send_to_right (head_update ops st))"
proof -
  let ?st0 = "st\<lparr> world := lane_switch_all ops (vehicles st) (world st) \<rparr>"
  from lane_move_all_marks[of ops 0 "vehicles st" ?st0] assms
  show ?thesis
    by (auto simp: head_update_def)
qed

lemma nth_erase_below: "j < index \<Longrightarrow> index < length xs \<Longrightarrow> erase index xs ! j = xs ! j"
  by (simp add: erase_def nth_append)

lemma length_erase: "index < length xs \<Longrightarrow> length (erase index xs) = length xs - 1"
  by (simp add: erase_def)

lemma nths_UNIV_eq: "nths xs UNIV = xs"
  by (rule nths_all) simp

lemma nths_erase:
  assumes "index < length xs" and "\<forall>j\<in>S. j < index"
  shows "nths (erase index xs) (- S) = nths xs (- insert index S)"
proof -
  let ?front = "take index xs" and ?rear = "drop (Suc index) xs"
  have xs: "xs = ?front @ xs ! index # ?rear"
    using assms(1) by (simp add: id_take_nth_drop)
  have l: "length ?front = index"
    using assms(1) by simp
  define A where "A = {j. j + index \<in> - insert index S}"
  have a: "{j. j + index \<in> - S} = UNIV"
    using assms(2) by auto
  have A0: "0 \<notin> A"
    by (simp add: A_def)
  have AS: "{j. Suc j \<in> A} = UNIV"
    using assms(2) by (auto simp: A_def)
  have c: "nths ?front (- insert index S) = nths ?front (- S)"
    unfolding nths_def
  proof (rule arg_cong[where f = "map fst"], rule filter_cong[OF refl])
    fix p
    assume "p \<in> set (zip ?front [0..<length ?front])"
    then have "(fst p, snd p) \<in> set (zip ?front [0..<index])"
      using l by simp
    then have "snd p \<in> set [0..<index]"
      by (rule set_zip_rightD)
    then have "snd p < index"
      by simp
    then show "(snd p \<in> - insert index S) = (snd p \<in> - S)"
      by auto
  qed
  have "nths (?front @ ?rear) (- S) = nths ?front (- S) @ nths ?rear {j. j + length ?front \<in> - S}"
    by (rule nths_append)
  also have "\<dots> = nths ?front (- S) @ ?rear"
    by (simp only: l a nths_UNIV_eq)
  finally have lhs: "nths (erase index xs) (- S) = nths ?front (- S) @ ?rear"
    by (simp only: erase_def)
  have "nths (?front @ xs ! index # ?rear) (- insert index S) =
          nths ?front (- insert index S)
          @ nths (xs ! index # ?rear) {j. j + length ?front \<in> - insert index S}"
    by (rule nths_append)
  also have "\<dots> = nths ?front (- S) @ nths (xs ! index # ?rear) A"
    by (simp only: l c A_def)
  also have "nths (xs ! index # ?rear) A = ?rear"
    by (simp add: nths_Cons A0 AS nths_UNIV_eq)
  finally have "nths xs (- insert index S) = nths ?front (- S) @ ?rear"
    using xs by simp
  with lhs show ?thesis by simp
qed

lemma remove_finished_descending:
  assumes "sorted_wrt (>) ds" and "\<forall>d\<in>set ds. d < length (vehicles st)"
  shows "\<exists>st' evs. remove_finished ops inputs ds st = Inr st'
           \<and> trace st' = trace st @ evs
           \<and> deleted_vehicles evs = map ((!) (vehicles st)) ds
           \<and> vehicles st' = nths (vehicles st) (- set ds)"
  using assms
proof (induction ds arbitrary: st)
  case Nil
  show ?case by (simp add: nths_UNIV_eq)
next
  case (Cons d ds)
  let ?v = "vehicles st ! d"
  let ?st1 = "(record_and_delete ops inputs ?v st)\<lparr> vehicles := erase d (vehicles st) \<rparr>"
  from Cons.prems have d: "d < length (vehicles st)" and below: "\<forall>j\<in>set ds. j < d"
    and s: "sorted_wrt (>) ds"
    by auto
  have "\<forall>j\<in>set ds. j < length (vehicles ?st1)"
    using below d by (auto simp: length_erase)
  from Cons.IH[OF s this] obtain st' evs where
    r: "remove_finished ops inputs ds ?st1 = Inr st'"
       "trace st' = trace ?st1 @ evs"
       "deleted_vehicles evs = map ((!) (vehicles ?st1)) ds"
       "vehicles st' = nths (vehicles ?st1) (- set ds)"
    by blast
  have "map ((!) (vehicles ?st1)) ds = map ((!) (vehicles st)) ds"
    using below d by (simp add: nth_erase_below)
  moreover have "nths (vehicles ?st1) (- set ds) = nths (vehicles st) (- set (d # ds))"
    using nths_erase[OF d below] by simp
  ultimately show ?case
    using r d
    by (intro exI[of _ st'] exI[of _ "removal_events ops inputs ?v st @ evs"])
      (simp add: record_and_delete_fields deleted_vehicles_append removal_events_def)
qed

lemma head_tick_removes_marked:
  assumes "vehicles_to_remove st = []" and "send_to_right st = []"
    and "send_batch 0 sz (head_update ops st) = Inr sent"
  shows "\<exists>st1 evs. tick ops inputs 0 sz L st = Inr (spawn ops inputs st1)
           \<and> trace st1 = trace st @ send_events 0 sz (send_to_right (head_update ops st))
                             @ [Time_increment] @ evs
           \<and> deleted_vehicles evs =
               rev (map ((!) (vehicles st)) (vehicles_to_remove (head_update ops st)))
           \<and> vehicles st1 = nths (vehicles st) (- set (vehicles_to_remove (head_update ops st)))"
proof -
  let ?marked = "vehicles_to_remove (head_update ops st)"
  let ?st2 = "increment_time sent"
  from head_update_marks[OF assms(1,2), of ops] have
    s: "sorted_wrt (<) ?marked" and b: "\<forall>m\<in>set ?marked. m < length (vehicles st)"
    by simp_all
  have f: "vehicles_to_remove ?st2 = ?marked" "vehicles ?st2 = vehicles st"
    "trace ?st2 = trace st @ send_events 0 sz (send_to_right (head_update ops st))
                    @ [Time_increment]"
    by (simp_all add: send_batch_result[OF assms(3)] increment_time_def head_update_fields)
  have "sorted ?marked"
    using s by (rule strict_sorted_imp_sorted)
  then have so: "sort ?marked = ?marked"
    by (rule sorted_sort_id)
  have d: "sorted_wrt (>) (rev ?marked)"
    using s by (simp add: sorted_wrt_rev)
  have "\<forall>d\<in>set (rev ?marked). d < length (vehicles ?st2)"
    using b f(2) by simp
  from remove_finished_descending[OF d this, of ops inputs] obtain st3 evs where
    r: "remove_finished ops inputs (rev ?marked) ?st2 = Inr st3"
       "trace st3 = trace ?st2 @ evs"
       "deleted_vehicles evs = map ((!) (vehicles ?st2)) (rev ?marked)"
       "vehicles st3 = nths (vehicles ?st2) (- set (rev ?marked))"
    by blast
  have "tick ops inputs 0 sz L st = Inr (spawn ops inputs (st3\<lparr> vehicles_to_remove := [] \<rparr>))"
    using r(1) assms(3)
    by (simp add: tick_def update_phase_def head_finish_def Let_def f(1) so)
  with r(2,3,4) f show ?thesis
    by (intro exI[of _ "st3\<lparr> vehicles_to_remove := [] \<rparr>"] exI[of _ evs]) (simp add: rev_map)
qed

lemma local_body_cases:
  assumes "local_vehicles_to_remove st = []" and "i < length (local_vehicles st)"
  shows "\<exists>st'. local_body ops inputs L i st = Inr st'
           \<and> local_vehicles_to_remove st' = []
           \<and> (if leaves_segment ops (local_vehicles st ! i) (world st) then
                 send_to_right st' =
                   send_to_right st @ [local_record ops (local_vehicles st ! i) (world st)]
                 \<and> (if in_buffer_zone ops inputs L (local_vehicles st ! i) (world st) then
                       local_vehicles st' = local_vehicles st \<and> trace st' = trace st
                       \<and> travel_time st' = travel_time st
                     else
                       local_vehicles st' = erase i (local_vehicles st)
                       \<and> trace st' = trace st
                            @ (if warmup_time inputs < time st then
                                 [Add_value (getTravelTime ops (local_vehicles st ! i) inputs
                                    (lane_cleared ops (local_vehicles st ! i) (world st)))]
                               else [])
                            @ [Delete_vehicle (local_vehicles st ! i)]
                       \<and> travel_time st' = travel_time st
                            @ (if warmup_time inputs < time st then
                                 [getTravelTime ops (local_vehicles st ! i) inputs
                                    (lane_cleared ops (local_vehicles st ! i) (world st))]
                               else []))
               else send_to_right st' = send_to_right st
                    \<and> local_vehicles st' = local_vehicles st \<and> trace st' = trace st
                    \<and> travel_time st' = travel_time st)"
proof -
  let ?v = "local_vehicles st ! i"
  let ?w3 = "updateGaps ops ?v (performLaneSwitch ops ?v (updateGaps ops ?v (world st)))"
  obtain t w4 where p: "performLaneMove ops ?v (sensed ops ?v (world st)) = (t, w4)"
    by (cases "performLaneMove ops ?v (sensed ops ?v (world st))")
  then have p': "performLaneMove ops ?v ?w3 = (t, w4)"
    by (simp add: sensed_def)
  show ?thesis
  proof (cases "t = 0")
    case True
    then show ?thesis
      using assms p p'
      by (simp add: local_body_def update_one_def Let_def leaves_segment_def)
  next
    case False
    show ?thesis
    proof (cases "in_buffer_zone ops inputs L ?v (world st)")
      case True
      then have "c_int (getPrevPosition ops ?v ?w3 + getNewPosition ops ?v w4)
                   < c_int (L + max_speed inputs)"
        using p by (simp add: in_buffer_zone_def sensed_def)
      then show ?thesis
        using assms p p' False True
        by (simp add: local_body_def update_one_def Let_def leaves_segment_def
            local_record_def)
    next
      case nb: False
      then have "\<not> c_int (getPrevPosition ops ?v ?w3 + getNewPosition ops ?v w4)
                     < c_int (L + max_speed inputs)"
        using p by (simp add: in_buffer_zone_def sensed_def)
      then show ?thesis
        using assms p p' False nb
        by (simp add: local_body_def update_one_def Let_def leaves_segment_def
            local_record_def lane_cleared_def record_and_delete_def)
    qed
  qed
qed

lemma update_local_counts:
  assumes "update_local ops inputs L i st = Inr st'" and "local_vehicles_to_remove st = []"
  shows "\<exists>evs recs. trace st' = trace st @ evs
           \<and> send_to_right st' = send_to_right st @ recs
           \<and> length (deleted_vehicles evs) \<le> length recs"
  using assms
proof (induction ops inputs L i st rule: update_local.induct)
  case (1 ops inputs L i st)
  show ?case
  proof (cases "i < length (local_vehicles st)")
    case False
    with 1(2) have "st' = st"
      by (simp add: update_local.simps[of ops inputs L i st])
    then show ?thesis by simp
  next
    case True
    from True 1(2) obtain st3 where
      r: "local_body ops inputs L i st = Inr st3"
      and u: "update_local ops inputs L (i + 1) st3 = Inr st'"
      by (simp add: update_local.simps[of ops inputs L i st] split: sum.splits)
    from local_body_cases[OF 1(3) True, of ops inputs L] r obtain evs1 recs1 where
      a: "local_vehicles_to_remove st3 = []" "trace st3 = trace st @ evs1"
         "send_to_right st3 = send_to_right st @ recs1"
         "length (deleted_vehicles evs1) \<le> length recs1"
      by (auto split: if_splits)
    from 1(1)[OF True r u a(1)] obtain evs2 recs2 where
      b: "trace st' = trace st3 @ evs2" "send_to_right st' = send_to_right st3 @ recs2"
         "length (deleted_vehicles evs2) \<le> length recs2"
      by blast
    show ?thesis
      using a b
      by (intro exI[of _ "evs1 @ evs2"] exI[of _ "recs1 @ recs2"])
        (simp add: deleted_vehicles_append)
  qed
qed

lemma reconstruct_to_remove:
  assumes "reconstruct ops inputs batch new_vehicle st = Inr st2"
  shows "local_vehicles_to_remove st2 = local_vehicles_to_remove st"
  using assms
proof (induction batch arbitrary: new_vehicle st)
  case Nil
  then show ?case by simp
next
  case (Cons vdata rest)
  then show ?case
    by (fastforce split: prod.splits option.splits)
qed

lemma receive_batch_to_remove:
  assumes "receive_batch neighbor_left st = Inr st1"
  shows "local_vehicles_to_remove st1 = local_vehicles_to_remove st"
  using assms
  by (auto simp: receive_batch_def Let_def split: list.splits if_splits)

lemma deleted_vehicles_send_events: "deleted_vehicles (send_events rank sz batch) = []"
  by (simp add: send_events_def)

lemma added_values_send_events: "added_values (send_events rank sz batch) = []"
  by (simp add: send_events_def)

lemma tick_interior_counts:
  assumes "0 < rank" and "tick ops inputs rank sz L st = Inr st'"
    and "local_vehicles_to_remove st = []"
  shows "\<exists>evs batch. trace st' = trace st @ evs
           \<and> sent_messages evs = sent_messages (send_events rank sz batch)
           \<and> (\<not> rank + 1 < sz \<longrightarrow> send_to_right st' = batch)
           \<and> length (deleted_vehicles evs) \<le> length batch"
proof -
  from assms obtain st1 st2 st3 sent where
    a: "receive_batch (rank - 1) st = Inr st1"
    and b: "reconstruct ops inputs (send_to_right st1) None st1 = Inr st2"
    and c: "update_local ops inputs L 0 (st2\<lparr> send_to_right := [] \<rparr>) = Inr st3"
    and sb: "send_batch rank sz st3 = Inr sent"
    and d: "st' = increment_time sent"
    by (auto simp: tick_def update_phase_def interior_update_def Let_def split: sum.splits)
  from receive_batch_fields[OF a] obtain count_msg data_msg where
    a1: "trace st1 = trace st @ [MPI_Recv (rank - 1) count_msg, MPI_Recv (rank - 1) data_msg]"
    by blast
  have b1: "trace st2 = trace st1"
    using reconstruct_fields[OF b] by simp
  have "local_vehicles_to_remove (st2\<lparr> send_to_right := [] \<rparr>) = []"
    using receive_batch_to_remove[OF a] reconstruct_to_remove[OF b] assms(3) by simp
  from update_local_counts[OF c this] obtain evs batch where
    c1: "trace st3 = trace st2 @ evs" "send_to_right st3 = batch"
        "length (deleted_vehicles evs) \<le> length batch"
    by auto
  let ?evs = "[MPI_Recv (rank - 1) count_msg, MPI_Recv (rank - 1) data_msg] @ evs
                @ send_events rank sz batch @ [Time_increment]"
  have t: "trace st' = trace st @ ?evs"
    using a1 b1 c1 d by (simp add: send_batch_result[OF sb] increment_time_def)
  from update_local_trace[OF c] c1(1) obtain p where "removals ops inputs p evs"
    by auto
  then have "sent_messages evs = []"
    by (rule removals_sent)
  then have "sent_messages ?evs = sent_messages (send_events rank sz batch)"
    by (simp add: sent_messages_append)
  moreover have "\<not> rank + 1 < sz \<longrightarrow> send_to_right st' = batch"
    using c1(2) d by (simp add: send_batch_result[OF sb] increment_time_def)
  moreover have "length (deleted_vehicles ?evs) \<le> length batch"
    using c1(3) by (simp add: deleted_vehicles_append deleted_vehicles_send_events)
  ultimately show ?thesis
    using t by blast
qed

lemma tick_head_counts:
  assumes "tick ops inputs 0 sz L st = Inr st'"
    and "vehicles_to_remove st = []" and "send_to_right st = []"
  shows "\<exists>evs batch. trace st' = trace st @ evs
           \<and> sent_messages evs = sent_messages (send_events 0 sz batch)
           \<and> length (deleted_vehicles evs) = length batch"
proof -
  let ?batch = "send_to_right (head_update ops st)"
  from assms(1) obtain sent where sb: "send_batch 0 sz (head_update ops st) = Inr sent"
    by (auto simp: tick_def update_phase_def split: sum.splits)
  from head_tick_removes_marked[OF assms(2,3) sb, of inputs L] assms(1)
  obtain st1 evs where
    h: "st' = spawn ops inputs st1"
       "trace st1 = trace st @ send_events 0 sz ?batch @ [Time_increment] @ evs"
       "deleted_vehicles evs =
          rev (map ((!) (vehicles st)) (vehicles_to_remove (head_update ops st)))"
    by auto
  have l: "length (vehicles_to_remove (head_update ops st)) = length ?batch"
    using head_update_marks[OF assms(2,3), of ops] by (auto dest: list_all2_lengthD)
  let ?evs = "send_events 0 sz ?batch @ [Time_increment] @ evs @ [Attempt_spawn]"
  have t: "trace st' = trace st @ ?evs"
    using h(1,2) by (simp add: spawn_def split: prod.split)
  from tick_head_trace[OF assms(1)] t obtain p where "removals ops inputs p evs"
    by auto
  then have "sent_messages evs = []"
    by (rule removals_sent)
  then have "sent_messages ?evs = sent_messages (send_events 0 sz ?batch)"
    by (simp add: sent_messages_append)
  moreover have "length (deleted_vehicles ?evs) = length ?batch"
    using h(3) l by (simp add: deleted_vehicles_append deleted_vehicles_send_events)
  ultimately show ?thesis
    using t by blast
qed

text \<open>
  A completed tick leaves the vectors as the next pass of the loop expects them; rank 0
  has a right neighbour whenever the program runs at all, which needs two processes.
\<close>

lemma remove_finished_other:
  assumes "remove_finished ops inputs indices st = Inr st'"
  shows "local_vehicles_to_remove st' = local_vehicles_to_remove st
         \<and> vehicles_to_remove st' = vehicles_to_remove st
         \<and> send_to_right st' = send_to_right st"
  using assms
proof (induction indices arbitrary: st)
  case Nil
  then show ?case by simp
next
  case (Cons index rest)
  from Cons.prems have
    "remove_finished ops inputs rest
       ((record_and_delete ops inputs (vehicles st ! index) st)
          \<lparr> vehicles := erase index (vehicles st) \<rparr>) = Inr st'"
    by (simp split: if_splits)
  from Cons.IH[OF this] show ?case
    by (simp add: record_and_delete_def Let_def)
qed

lemma remove_local_other:
  assumes "remove_local ops inputs indices st = Inr st'"
  shows "vehicles_to_remove st' = vehicles_to_remove st"
  using assms
proof (induction indices arbitrary: st)
  case Nil
  then show ?case by simp
next
  case (Cons index rest)
  from Cons.prems have
    "remove_local ops inputs rest
       ((record_and_delete ops inputs (local_vehicles st ! index) st)
          \<lparr> local_vehicles := erase index (local_vehicles st) \<rparr>) = Inr st'"
    by (simp split: if_splits)
  from Cons.IH[OF this] show ?case
    by (simp add: record_and_delete_def Let_def)
qed

lemma local_body_other:
  assumes "local_body ops inputs L i st = Inr st'"
  shows "vehicles_to_remove st' = vehicles_to_remove st \<and> local_vehicles_to_remove st' = []"
proof -
  let ?st2 = "update_one ops inputs L i st"
  from assms obtain st3 where
    r: "remove_local ops inputs (rev (sort (local_vehicles_to_remove ?st2))) ?st2 = Inr st3"
    and s: "st' = st3\<lparr> local_vehicles_to_remove := [] \<rparr>"
    by (auto simp: local_body_def Let_def split: sum.splits)
  have "vehicles_to_remove ?st2 = vehicles_to_remove st"
    by (simp add: update_one_def Let_def split: prod.split)
  with remove_local_other[OF r] s show ?thesis by simp
qed

lemma update_local_other:
  assumes "update_local ops inputs L i st = Inr st'" and "local_vehicles_to_remove st = []"
  shows "vehicles_to_remove st' = vehicles_to_remove st \<and> local_vehicles_to_remove st' = []"
  using assms
proof (induction ops inputs L i st rule: update_local.induct)
  case (1 ops inputs L i st)
  show ?case
  proof (cases "i < length (local_vehicles st)")
    case False
    with 1(2) have "st' = st"
      by (simp add: update_local.simps[of ops inputs L i st])
    with 1(3) show ?thesis by simp
  next
    case True
    from True 1(2) obtain st3 where
      r: "local_body ops inputs L i st = Inr st3"
      and u: "update_local ops inputs L (i + 1) st3 = Inr st'"
      by (simp add: update_local.simps[of ops inputs L i st] split: sum.splits)
    from local_body_other[OF r] 1(1)[OF True r u] show ?thesis
      by simp
  qed
qed

lemma lane_move_all_other:
  "local_vehicles_to_remove (lane_move_all ops n vs st) = local_vehicles_to_remove st"
  by (induction vs arbitrary: n st) (simp_all split: prod.split)

lemma reconstruct_other:
  assumes "reconstruct ops inputs batch new_vehicle st = Inr st2"
  shows "vehicles_to_remove st2 = vehicles_to_remove st"
  using assms
proof (induction batch arbitrary: new_vehicle st)
  case Nil
  then show ?case by simp
next
  case (Cons vdata rest)
  then show ?case
    by (fastforce split: prod.splits option.splits)
qed

lemma tick_keeps_loop_state:
  assumes "tick ops inputs rank sz L st = Inr st'" and "loop_state rank st"
    and "rank = 0 \<longrightarrow> 1 < sz"
  shows "loop_state rank st'"
proof (cases "rank = 0")
  case True
  from assms(1) True obtain sent st3 where
    sb: "send_batch 0 sz (head_update ops st) = Inr sent"
    and r: "remove_finished ops inputs (rev (sort (vehicles_to_remove (increment_time sent))))
              (increment_time sent) = Inr st3"
    and s: "st' = spawn ops inputs (st3\<lparr> vehicles_to_remove := [] \<rparr>)"
    by (auto simp: tick_def update_phase_def head_finish_def Let_def split: sum.splits)
  let ?st2 = "increment_time sent"
  have "local_vehicles_to_remove ?st2 = []" "send_to_right ?st2 = []"
    using assms(2,3) True
    by (simp_all add: loop_state_def send_batch_result[OF sb] increment_time_def
        head_update_def lane_move_all_other)
  with remove_finished_other[OF r] s True show ?thesis
    by (simp add: loop_state_def spawn_def split: prod.split)
next
  case False
  from assms(1) False obtain st1 st2 st3 sent where
    a: "receive_batch (rank - 1) st = Inr st1"
    and b: "reconstruct ops inputs (send_to_right st1) None st1 = Inr st2"
    and c: "update_local ops inputs L 0 (st2\<lparr> send_to_right := [] \<rparr>) = Inr st3"
    and sb: "send_batch rank sz st3 = Inr sent"
    and d: "st' = increment_time sent"
    by (auto simp: tick_def update_phase_def interior_update_def Let_def split: sum.splits)
  have a1: "vehicles_to_remove st1 = vehicles_to_remove st"
    using a by (auto simp: receive_batch_def Let_def split: list.splits if_splits)
  have "local_vehicles_to_remove (st2\<lparr> send_to_right := [] \<rparr>) = []"
    using receive_batch_to_remove[OF a] reconstruct_to_remove[OF b] assms(2)
    by (simp add: loop_state_def)
  from update_local_other[OF c this] reconstruct_other[OF b] a1 assms(2) d False
  show ?thesis
    by (simp add: loop_state_def send_batch_result[OF sb] increment_time_def)
qed


section \<open>Completion of a tick\<close>

lemma receive_batch_can_receive:
  assumes "can_receive st"
  shows "receive_batch neighbor_left st =
           Inr (st\<lparr> from_left := drop 2 (from_left st),
                    send_to_right := received_records st,
                    trace := trace st @ [MPI_Recv neighbor_left (from_left st ! 0),
                                         MPI_Recv neighbor_left (from_left st ! 1)] \<rparr>)"
proof -
  from assms obtain count_msg data_msg rest where
    f: "from_left st = count_msg # data_msg # rest"
    and c: "length count_msg = 4" "0 \<le> bytes_to_int count_msg"
       "int (length data_msg) \<le> c_int (bytes_to_int count_msg * int sizeof_VehicleData)"
    by (auto simp: can_receive_def split: list.splits)
  have "0 \<le> c_int (bytes_to_int count_msg * int sizeof_VehicleData)"
    using c(3) by linarith
  with c show ?thesis
    by (simp add: receive_batch_def f received_records_def Let_def)
qed

lemma receive_batch_Inr_can_receive:
  assumes "receive_batch neighbor_left st = Inr st1"
  shows "can_receive st"
  using assms
  by (auto simp: receive_batch_def can_receive_def Let_def split: list.splits if_splits)

lemma length_records_of_bytes: "length (records_of_bytes n bs) = n"
  by (induction n arbitrary: bs) simp_all

lemma length_received_records:
  "can_receive st \<Longrightarrow> length (received_records st) = nat (bytes_to_int (from_left st ! 0))"
  by (auto simp: can_receive_def received_records_def length_records_of_bytes
      split: list.splits)

lemma bind_to_lane_keeps_pointer:
  "\<exists>a' w'. bind_to_lane ops inputs vdata ls (Some a, w) = (Some a', w')"
proof (induction ls arbitrary: a w)
  case Nil
  show ?case by simp
next
  case (Cons l ls)
  show ?case
  proof (cases "getLaneNumber ops l w = vd_lane vdata")
    case False
    with Cons[of a w] show ?thesis by simp
  next
    case True
    obtain b w' where "newVehicle ops l (vd_id vdata) (vd_position vdata) inputs w = (b, w')"
      by (cases "newVehicle ops l (vd_id vdata) (vd_position vdata) inputs w")
    with True Cons[of b w'] show ?thesis by simp
  qed
qed

lemma reconstruct_with_pointer_completes:
  "\<exists>st2. reconstruct ops inputs batch (Some a) st = Inr st2"
proof (induction batch arbitrary: a st)
  case Nil
  show ?case by simp
next
  case (Cons vdata rest)
  from bind_to_lane_keeps_pointer[of ops inputs vdata "lanes st" a "world st"]
  obtain a' w' where
    "bind_to_lane ops inputs vdata (lanes st) (Some a, world st) = (Some a', w')"
    by blast
  with Cons show ?case by simp
qed

lemma bind_to_lane_no_match:
  assumes "\<forall>l\<in>set ls. getLaneNumber ops l w \<noteq> vd_lane vdata"
  shows "bind_to_lane ops inputs vdata ls (new_vehicle, w) = (new_vehicle, w)"
  using assms by (induction ls) simp_all

lemma reconstruct_completes_iff:
  "(\<exists>st2. reconstruct ops inputs batch None st = Inr st2) =
     (case batch of
        [] \<Rightarrow> True
      | vdata # rest \<Rightarrow> \<exists>l\<in>set (lanes st). getLaneNumber ops l (world st) = vd_lane vdata)"
proof (cases batch)
  case Nil
  then show ?thesis by simp
next
  case (Cons vdata rest)
  show ?thesis
  proof (cases "\<exists>l\<in>set (lanes st). getLaneNumber ops l (world st) = vd_lane vdata")
    case True
    with bind_to_lane_cases[of ops inputs vdata "lanes st" None "world st"]
    obtain a w1 where
      "bind_to_lane ops inputs vdata (lanes st) (None, world st) = (Some a, w1)"
      by blast
    with reconstruct_with_pointer_completes[of ops inputs rest a] True Cons
    show ?thesis by simp
  next
    case False
    then have "bind_to_lane ops inputs vdata (lanes st) (None, world st) = (None, world st)"
      by (intro bind_to_lane_no_match) simp
    with False Cons show ?thesis by simp
  qed
qed

lemma pushed_for_length:
  "pushed_for ops inputs ls previous rs as \<Longrightarrow> length as = length rs"
  by (induction ops inputs ls previous rs as rule: pushed_for.induct) simp_all

lemma reconstruct_pushed:
  assumes "reconstruct ops inputs batch new_vehicle st = Inr st2"
  shows "\<exists>pushed. local_vehicles st2 = local_vehicles st @ pushed
           \<and> pushed_for ops inputs (lanes st) new_vehicle batch pushed"
  using assms
proof (induction batch arbitrary: new_vehicle st)
  case Nil
  then show ?case by simp
next
  case (Cons vdata rest)
  from Cons.prems obtain a w where
    b: "bind_to_lane ops inputs vdata (lanes st) (new_vehicle, world st) = (Some a, w)"
    by (auto split: prod.splits option.splits)
  let ?st1 = "st\<lparr> world := setTimeOnRoad ops a (vd_time_on_road vdata)
                               (setSpeed ops a (vd_speed vdata) w),
                  local_vehicles := local_vehicles st @ [a] \<rparr>"
  from Cons.prems b have r: "reconstruct ops inputs rest (Some a) ?st1 = Inr st2"
    by simp
  from Cons.IH[OF r] obtain pushed where
    p: "local_vehicles st2 = local_vehicles ?st1 @ pushed"
       "pushed_for ops inputs (lanes ?st1) (Some a) rest pushed"
    by blast
  from bind_to_lane_cases[of ops inputs vdata "lanes st" new_vehicle "world st"] b
  have "constructed_for ops inputs (lanes st) vdata a
        \<or> (new_vehicle = Some a
            \<and> (\<exists>w. \<forall>l\<in>set (lanes st). getLaneNumber ops l w \<noteq> vd_lane vdata))"
    unfolding constructed_for_def by auto
  with p show ?case
    by (intro exI[of _ "a # pushed"]) simp
qed

lemma update_local_completes:
  assumes "local_vehicles_to_remove st = []"
  shows "\<exists>st'. update_local ops inputs L i st = Inr st'"
  using assms
proof (induction ops inputs L i st rule: update_local.induct)
  case (1 ops inputs L i st)
  show ?case
  proof (cases "i < length (local_vehicles st)")
    case False
    then show ?thesis
      by (simp add: update_local.simps[of ops inputs L i st])
  next
    case True
    from local_body_cases[OF 1(2) True, of ops inputs L] obtain st3 where
      r: "local_body ops inputs L i st = Inr st3" and e: "local_vehicles_to_remove st3 = []"
      by blast
    from 1(1)[OF True r e] r True show ?thesis
      by (simp add: update_local.simps[of ops inputs L i st])
  qed
qed

lemma lane_move_all_queue_bound:
  "length (send_to_right (lane_move_all ops n vs st)) \<le> length (send_to_right st) + length vs"
proof (induction vs arbitrary: n st)
  case Nil
  show ?case by simp
next
  case (Cons v vs)
  obtain t w where m: "performLaneMove ops v (world st) = (t, w)"
    by (cases "performLaneMove ops v (world st)")
  show ?case
  proof (cases "t = 0")
    case True
    with m Cons[of "n + 1" "st\<lparr> world := w \<rparr>"] show ?thesis by simp
  next
    case False
    with m Cons[of "n + 1" "st\<lparr> world := w,
        vehicles_to_remove := vehicles_to_remove st @ [n],
        send_to_right := send_to_right st
          @ [make_vdata ops v (getNewPosition ops v w) t w] \<rparr>"]
    show ?thesis by simp
  qed
qed

lemma head_update_queue_bound:
  "length (send_to_right (head_update ops st)) \<le> length (send_to_right st) + length (vehicles st)"
  using lane_move_all_queue_bound[of ops 0 "vehicles st"
      "st\<lparr> world := lane_switch_all ops (vehicles st) (world st) \<rparr>"]
  by (simp add: head_update_def)

lemma update_local_queue_bound:
  assumes "update_local ops inputs L i st = Inr st'" and "local_vehicles_to_remove st = []"
  shows "length (send_to_right st')
           \<le> length (send_to_right st) + (length (local_vehicles st) - i)"
  using assms
proof (induction ops inputs L i st rule: update_local.induct)
  case (1 ops inputs L i st)
  show ?case
  proof (cases "i < length (local_vehicles st)")
    case False
    with 1(2) have "st' = st"
      by (simp add: update_local.simps[of ops inputs L i st])
    then show ?thesis by simp
  next
    case True
    from True 1(2) obtain st3 where
      r: "local_body ops inputs L i st = Inr st3"
      and u: "update_local ops inputs L (i + 1) st3 = Inr st'"
      by (simp add: update_local.simps[of ops inputs L i st] split: sum.splits)
    from local_body_cases[OF 1(3) True, of ops inputs L] r length_erase[OF True] have
      a: "local_vehicles_to_remove st3 = []"
         "length (send_to_right st3) \<le> length (send_to_right st) + 1"
         "length (local_vehicles st3) \<le> length (local_vehicles st)"
      by (auto split: if_splits)
    from 1(1)[OF True r u a(1)] a(2,3) True show ?thesis
      by simp
  qed
qed

lemma tick_completes:
  assumes "ready ops rank sz st"
  shows "\<exists>st'. tick ops inputs rank sz L st = Inr st'"
proof (cases "rank = 0")
  case True
  from assms True have l: "vehicles_to_remove st = []" "send_to_right st = []"
    by (simp_all add: ready_def loop_state_def)
  have "1 < sz \<longrightarrow> batch_fits (length (send_to_right (head_update ops st)))"
    using assms True head_update_queue_bound[of ops st] l(2)
    by (auto simp: ready_def held_vehicles_def intro: batch_fits_mono)
  then obtain sent where "send_batch 0 sz (head_update ops st) = Inr sent"
    using send_batch_fits[of 0 sz "head_update ops st"] by auto
  from head_tick_removes_marked[OF l this, of inputs L] True
  show ?thesis
    by auto
next
  case False
  then have pos: "0 < rank" by simp
  from assms have c: "can_receive st" using pos by (simp add: ready_def)
  let ?st1 = "st\<lparr> from_left := drop 2 (from_left st),
                   send_to_right := received_records st,
                   trace := trace st @ [MPI_Recv (rank - 1) (from_left st ! 0),
                                        MPI_Recv (rank - 1) (from_left st ! 1)] \<rparr>"
  have a: "receive_batch (rank - 1) st = Inr ?st1"
    using c by (rule receive_batch_can_receive)
  from assms pos reconstruct_completes_iff[of ops inputs "received_records st" ?st1]
  obtain st2 where b: "reconstruct ops inputs (received_records st) None ?st1 = Inr st2"
    by (auto simp: ready_def split: list.splits)
  have e: "local_vehicles_to_remove (st2\<lparr> send_to_right := [] \<rparr>) = []"
    using reconstruct_to_remove[OF b] assms by (simp add: ready_def loop_state_def)
  from update_local_completes[OF this, of ops inputs L 0] obtain st3 where
    u: "update_local ops inputs L 0 (st2\<lparr> send_to_right := [] \<rparr>) = Inr st3"
    by blast
  from reconstruct_pushed[OF b] obtain pushed where
    p: "local_vehicles st2 = local_vehicles st @ pushed"
       "pushed_for ops inputs (lanes st) None (received_records st) pushed"
    by auto
  have "length pushed = length (received_records st)"
    using p(2) by (rule pushed_for_length)
  with update_local_queue_bound[OF u e] p(1) have
    "length (send_to_right st3) \<le> held_vehicles rank st"
    using pos by (simp add: held_vehicles_def)
  with assms have "rank + 1 < sz \<longrightarrow> batch_fits (length (send_to_right st3))"
    by (auto simp: ready_def intro: batch_fits_mono)
  then obtain sent where "send_batch rank sz st3 = Inr sent"
    using send_batch_fits[of rank sz st3] by auto
  with a b u pos show ?thesis
    by (simp add: tick_def update_phase_def interior_update_def Let_def)
qed

section \<open>The handoffs of the update loop\<close>

lemma drop_erase: "drop (Suc i) (erase i xs) = drop (Suc (Suc i)) xs"
proof (cases "i < length xs")
  case True
  then show ?thesis by (simp add: erase_def min_def)
next
  case False
  then show ?thesis by (simp add: erase_def)
qed

lemma take_erase: "take i (erase i xs) = take i xs"
  by (simp add: erase_def min_def)

lemma set_drop_Suc_subset: "set (drop (Suc i) xs) \<subseteq> set (drop i xs)"
proof -
  have "drop (Suc i) xs = tl (drop i xs)"
    by (simp add: drop_Suc tl_drop)
  moreover have "set (tl (drop i xs)) \<subseteq> set (drop i xs)"
    by (cases "drop i xs") auto
  ultimately show ?thesis by simp
qed

lemma nth_mem_drop: "i < length xs \<Longrightarrow> xs ! i \<in> set (drop i xs)"
proof -
  assume "i < length xs"
  then have "drop i xs = xs ! i # drop (Suc i) xs"
    by (simp add: Cons_nth_drop_Suc)
  then show ?thesis by simp
qed

lemma take_Suc_eq_take:
  assumes "take (Suc i) xs = take (Suc i) ys"
  shows "take i xs = take i ys"
proof -
  have "take i (take (Suc i) xs) = take i (take (Suc i) ys)"
    using assms by simp
  then show ?thesis by (simp add: min_def)
qed

lemma take_Suc_eq_nth:
  assumes "take (Suc i) xs = take (Suc i) ys" and "i < length ys"
  shows "xs ! i = ys ! i \<and> i < length xs"
proof -
  have "length (take (Suc i) xs) = length (take (Suc i) ys)"
    using assms(1) by simp
  then have l: "i < length xs"
    using assms(2) by (simp add: min_def split: if_splits)
  have "take (Suc i) xs ! i = take (Suc i) ys ! i"
    using assms(1) by simp
  then have "xs ! i = ys ! i"
    by simp
  with l show ?thesis by simp
qed

lemma update_local_handoffs:
  assumes "update_local ops inputs L i st = Inr st'" and "local_vehicles_to_remove st = []"
  shows "\<exists>evs hs. trace st' = trace st @ evs
           \<and> send_to_right st' = send_to_right st @ map ho_record hs
           \<and> list_all (handed_on ops inputs L) hs
           \<and> set (map ho_vehicle hs) \<subseteq> set (drop i (local_vehicles st))
           \<and> deleted_vehicles evs = map ho_vehicle (filter (\<lambda>h. \<not> ho_kept h) hs)
           \<and> set (map ho_vehicle (filter ho_kept hs)) \<subseteq> set (local_vehicles st')
           \<and> length (local_vehicles st') + length (deleted_vehicles evs)
               = length (local_vehicles st)
           \<and> take i (local_vehicles st') = take i (local_vehicles st)"
  using assms
proof (induction ops inputs L i st rule: update_local.induct)
  case (1 ops inputs L i st)
  show ?case
  proof (cases "i < length (local_vehicles st)")
    case False
    with 1(2) have "st' = st"
      by (simp add: update_local.simps[of ops inputs L i st])
    then show ?thesis
      by (intro exI[of _ "[]"] exI[of _ "[]"]) simp
  next
    case True
    let ?v = "local_vehicles st ! i"
    from local_body_cases[OF 1(3) True, of ops inputs L] obtain st3 where
      r: "local_body ops inputs L i st = Inr st3"
      and e: "local_vehicles_to_remove st3 = []"
      and c: "if leaves_segment ops ?v (world st) then
                 send_to_right st3 = send_to_right st @ [local_record ops ?v (world st)]
                 \<and> (if in_buffer_zone ops inputs L ?v (world st) then
                       local_vehicles st3 = local_vehicles st \<and> trace st3 = trace st
                       \<and> travel_time st3 = travel_time st
                     else
                       local_vehicles st3 = erase i (local_vehicles st)
                       \<and> trace st3 = trace st
                            @ (if warmup_time inputs < time st then
                                 [Add_value (getTravelTime ops ?v inputs
                                    (lane_cleared ops ?v (world st)))]
                               else [])
                            @ [Delete_vehicle ?v]
                       \<and> travel_time st3 = travel_time st
                            @ (if warmup_time inputs < time st then
                                 [getTravelTime ops ?v inputs (lane_cleared ops ?v (world st))]
                               else []))
               else send_to_right st3 = send_to_right st
                    \<and> local_vehicles st3 = local_vehicles st \<and> trace st3 = trace st
                    \<and> travel_time st3 = travel_time st"
      by (elim exE conjE) (rule that)
    from True 1(2) r have u: "update_local ops inputs L (i + 1) st3 = Inr st'"
      by (simp add: update_local.simps[of ops inputs L i st])
    from 1(1)[OF True r u e] obtain evs2 hs2 where
      ih: "trace st' = trace st3 @ evs2"
          "send_to_right st' = send_to_right st3 @ map ho_record hs2"
          "list_all (handed_on ops inputs L) hs2"
          "set (map ho_vehicle hs2) \<subseteq> set (drop (i + 1) (local_vehicles st3))"
          "deleted_vehicles evs2 = map ho_vehicle (filter (\<lambda>h. \<not> ho_kept h) hs2)"
          "set (map ho_vehicle (filter ho_kept hs2)) \<subseteq> set (local_vehicles st')"
          "length (local_vehicles st') + length (deleted_vehicles evs2)
             = length (local_vehicles st3)"
          "take (i + 1) (local_vehicles st') = take (i + 1) (local_vehicles st3)"
      by (elim exE conjE) (rule that)
    have vi: "?v \<in> set (drop i (local_vehicles st))"
      using True by (rule nth_mem_drop)
    have "take (Suc i) (local_vehicles st') = take (Suc i) (local_vehicles st3)"
      using ih(8) by simp
    then have tk: "take i (local_vehicles st') = take i (local_vehicles st3)"
      by (rule take_Suc_eq_take)
    consider (stay) "\<not> leaves_segment ops ?v (world st)"
      | (buffer) "leaves_segment ops ?v (world st)" "in_buffer_zone ops inputs L ?v (world st)"
      | (leave) "leaves_segment ops ?v (world st)" "\<not> in_buffer_zone ops inputs L ?v (world st)"
      by blast
    then show ?thesis
    proof cases
      case stay
      with c have s: "send_to_right st3 = send_to_right st"
        "local_vehicles st3 = local_vehicles st" "trace st3 = trace st"
        by simp_all
      have sub: "set (drop (i + 1) (local_vehicles st)) \<subseteq> set (drop i (local_vehicles st))"
        using set_drop_Suc_subset[of i "local_vehicles st"] by simp
      show ?thesis
      proof (intro exI[of _ evs2] exI[of _ hs2] conjI)
        show "trace st' = trace st @ evs2"
          using ih(1) s(3) by simp
        show "send_to_right st' = send_to_right st @ map ho_record hs2"
          using ih(2) s(1) by simp
        show "list_all (handed_on ops inputs L) hs2"
          by (rule ih(3))
        show "set (map ho_vehicle hs2) \<subseteq> set (drop i (local_vehicles st))"
          using ih(4) sub by (simp add: s(2))
        show "deleted_vehicles evs2 = map ho_vehicle (filter (\<lambda>h. \<not> ho_kept h) hs2)"
          by (rule ih(5))
        show "set (map ho_vehicle (filter ho_kept hs2)) \<subseteq> set (local_vehicles st')"
          by (rule ih(6))
        show "length (local_vehicles st') + length (deleted_vehicles evs2)
                = length (local_vehicles st)"
          using ih(7) s(2) by simp
        show "take i (local_vehicles st') = take i (local_vehicles st)"
          using tk s(2) by simp
      qed
    next
      case buffer
      with c have s: "send_to_right st3 = send_to_right st @ [local_record ops ?v (world st)]"
        "local_vehicles st3 = local_vehicles st" "trace st3 = trace st"
        by simp_all
      let ?h = "\<lparr> ho_vehicle = ?v, ho_record = local_record ops ?v (world st), ho_kept = True \<rparr>"
      have h: "handed_on ops inputs L ?h"
        unfolding handed_on_def using buffer by (intro exI[of _ "world st"]) simp
      have sub: "set (drop (i + 1) (local_vehicles st)) \<subseteq> set (drop i (local_vehicles st))"
        using set_drop_Suc_subset[of i "local_vehicles st"] by simp
      have "take (Suc i) (local_vehicles st') = take (Suc i) (local_vehicles st)"
        using ih(8) s(2) by simp
      from take_Suc_eq_nth[OF this True]
      have kept: "?v \<in> set (local_vehicles st')"
        using nth_mem[of i "local_vehicles st'"] by simp
      show ?thesis
      proof (intro exI[of _ evs2] exI[of _ "?h # hs2"] conjI)
        show "trace st' = trace st @ evs2"
          using ih(1) s(3) by simp
        show "send_to_right st' = send_to_right st @ map ho_record (?h # hs2)"
          using ih(2) s(1) by simp
        show "list_all (handed_on ops inputs L) (?h # hs2)"
          using ih(3) h by simp
        show "set (map ho_vehicle (?h # hs2)) \<subseteq> set (drop i (local_vehicles st))"
          using ih(4) sub vi by (simp add: s(2))
        show "deleted_vehicles evs2 = map ho_vehicle (filter (\<lambda>h. \<not> ho_kept h) (?h # hs2))"
          using ih(5) by simp
        show "set (map ho_vehicle (filter ho_kept (?h # hs2))) \<subseteq> set (local_vehicles st')"
          using ih(6) kept by simp
        show "length (local_vehicles st') + length (deleted_vehicles evs2)
                = length (local_vehicles st)"
          using ih(7) s(2) by simp
        show "take i (local_vehicles st') = take i (local_vehicles st)"
          using tk s(2) by simp
      qed
    next
      case leave
      let ?evs1 = "(if warmup_time inputs < time st then
                      [Add_value (getTravelTime ops ?v inputs (lane_cleared ops ?v (world st)))]
                    else []) @ [Delete_vehicle ?v]"
      from leave c have s: "send_to_right st3 = send_to_right st @ [local_record ops ?v (world st)]"
        "local_vehicles st3 = erase i (local_vehicles st)" "trace st3 = trace st @ ?evs1"
        by simp_all
      let ?h = "\<lparr> ho_vehicle = ?v, ho_record = local_record ops ?v (world st), ho_kept = False \<rparr>"
      have h: "handed_on ops inputs L ?h"
        unfolding handed_on_def using leave by (intro exI[of _ "world st"]) simp
      have "set (drop (i + 1) (local_vehicles st3)) \<subseteq> set (drop (Suc i) (local_vehicles st))"
        using set_drop_Suc_subset[of "Suc i" "local_vehicles st"]
        by (simp add: s(2) drop_erase)
      also have "\<dots> \<subseteq> set (drop i (local_vehicles st))"
        by (rule set_drop_Suc_subset)
      finally have sub: "set (drop (i + 1) (local_vehicles st3))
                           \<subseteq> set (drop i (local_vehicles st))" .
      have d1: "deleted_vehicles ?evs1 = [?v]"
        by simp
      have len: "length (local_vehicles st3) + 1 = length (local_vehicles st)"
        using True by (simp add: s(2) length_erase)
      have tk': "take i (local_vehicles st') = take i (local_vehicles st)"
        using tk by (simp add: s(2) take_erase)
      show ?thesis
      proof (intro exI[of _ "?evs1 @ evs2"] exI[of _ "?h # hs2"] conjI)
        show "trace st' = trace st @ ?evs1 @ evs2"
          using ih(1) s(3) by simp
        show "send_to_right st' = send_to_right st @ map ho_record (?h # hs2)"
          using ih(2) s(1) by simp
        show "list_all (handed_on ops inputs L) (?h # hs2)"
          using ih(3) h by simp
        show "set (map ho_vehicle (?h # hs2)) \<subseteq> set (drop i (local_vehicles st))"
          using ih(4) sub vi by simp
        show "deleted_vehicles (?evs1 @ evs2)
                = map ho_vehicle (filter (\<lambda>h. \<not> ho_kept h) (?h # hs2))"
          using ih(5) by (simp add: deleted_vehicles_append)
        show "set (map ho_vehicle (filter ho_kept (?h # hs2))) \<subseteq> set (local_vehicles st')"
          using ih(6) by simp
        show "length (local_vehicles st') + length (deleted_vehicles (?evs1 @ evs2))
                = length (local_vehicles st)"
          using ih(7) len by (simp add: deleted_vehicles_append)
        show "take i (local_vehicles st') = take i (local_vehicles st)"
          by (rule tk')
      qed
    qed
  qed
qed


section \<open>The result of a tick\<close>

lemma lane_switch_all_attemptSpawn:
  "lane_switch_all (ops\<lparr> attemptSpawn := f \<rparr>) vs w = lane_switch_all ops vs w"
  by (induction vs arbitrary: w) simp_all

lemma make_vdata_attemptSpawn:
  "make_vdata (ops\<lparr> attemptSpawn := f \<rparr>) v new_pos t w = make_vdata ops v new_pos t w"
  by (simp add: make_vdata_def)

lemma lane_move_all_attemptSpawn:
  "lane_move_all (ops\<lparr> attemptSpawn := f \<rparr>) n vs st = lane_move_all ops n vs st"
  by (induction vs arbitrary: n st) (simp_all add: make_vdata_attemptSpawn split: prod.splits)

lemma head_update_attemptSpawn:
  "head_update (ops\<lparr> attemptSpawn := f \<rparr>) st = head_update ops st"
  by (simp add: head_update_def lane_switch_all_attemptSpawn lane_move_all_attemptSpawn)

lemma record_and_delete_attemptSpawn:
  "record_and_delete (ops\<lparr> attemptSpawn := f \<rparr>) inputs v st = record_and_delete ops inputs v st"
  by (simp add: record_and_delete_def)

lemma remove_finished_attemptSpawn:
  "remove_finished (ops\<lparr> attemptSpawn := f \<rparr>) inputs indices st
     = remove_finished ops inputs indices st"
  by (induction indices arbitrary: st) (simp_all add: record_and_delete_attemptSpawn)

lemma remove_local_attemptSpawn:
  "remove_local (ops\<lparr> attemptSpawn := f \<rparr>) inputs indices st
     = remove_local ops inputs indices st"
  by (induction indices arbitrary: st) (simp_all add: record_and_delete_attemptSpawn)

lemma update_one_attemptSpawn:
  "update_one (ops\<lparr> attemptSpawn := f \<rparr>) inputs L i st = update_one ops inputs L i st"
  by (simp add: update_one_def make_vdata_attemptSpawn Let_def split: prod.splits)

lemma local_body_attemptSpawn:
  "local_body (ops\<lparr> attemptSpawn := f \<rparr>) inputs L i st = local_body ops inputs L i st"
  by (simp add: local_body_def update_one_attemptSpawn remove_local_attemptSpawn)

lemma update_local_attemptSpawn:
  "update_local (ops\<lparr> attemptSpawn := f \<rparr>) inputs L i st = update_local ops inputs L i st"
proof (induction ops inputs L i st rule: update_local.induct)
  case (1 ops inputs L i st)
  show ?case
  proof (cases "i < length (local_vehicles st)")
    case False
    then show ?thesis
      by (simp add: update_local.simps[of "ops\<lparr> attemptSpawn := f \<rparr>" inputs L i st]
          update_local.simps[of ops inputs L i st])
  next
    case True
    show ?thesis
    proof (cases "local_body ops inputs L i st")
      case (Inl e)
      with True show ?thesis
        by (simp add: update_local.simps[of "ops\<lparr> attemptSpawn := f \<rparr>" inputs L i st]
            update_local.simps[of ops inputs L i st] local_body_attemptSpawn)
    next
      case (Inr st3)
      with True 1[OF True Inr] show ?thesis
        by (simp add: update_local.simps[of "ops\<lparr> attemptSpawn := f \<rparr>" inputs L i st]
            update_local.simps[of ops inputs L i st] local_body_attemptSpawn)
    qed
  qed
qed

lemma bind_to_lane_attemptSpawn:
  "bind_to_lane (ops\<lparr> attemptSpawn := f \<rparr>) inputs vdata ls p = bind_to_lane ops inputs vdata ls p"
proof (induction ls arbitrary: p)
  case Nil
  show ?case by (cases p) simp
next
  case (Cons l ls)
  show ?case
    by (cases p) (simp add: Cons split: prod.splits)
qed

lemma reconstruct_attemptSpawn:
  "reconstruct (ops\<lparr> attemptSpawn := f \<rparr>) inputs batch new_vehicle st
     = reconstruct ops inputs batch new_vehicle st"
  by (induction batch arbitrary: new_vehicle st)
    (simp_all add: bind_to_lane_attemptSpawn split: prod.splits option.splits)

lemma update_phase_attemptSpawn:
  "update_phase (ops\<lparr> attemptSpawn := f \<rparr>) inputs rank L st = update_phase ops inputs rank L st"
  by (simp add: update_phase_def interior_update_def head_update_attemptSpawn
      reconstruct_attemptSpawn update_local_attemptSpawn split: sum.splits)

lemma tick_attemptSpawn:
  assumes "0 < rank"
  shows "tick (ops\<lparr> attemptSpawn := f \<rparr>) inputs rank sz L st = tick ops inputs rank sz L st"
  using assms by (simp add: tick_def update_phase_attemptSpawn Let_def split: sum.splits)

lemma ready_attemptSpawn:
  "ready (ops\<lparr> attemptSpawn := f \<rparr>) rank sz st = ready ops rank sz st"
  by (simp add: ready_def split: list.splits)

lemma head_removal:
  assumes "vehicles_to_remove st = []" and "send_to_right st = []"
    and "send_batch 0 sz (head_update ops st) = Inr sent"
  shows "\<exists>st3 evs.
           remove_finished ops inputs (rev (sort (vehicles_to_remove (increment_time sent))))
             (increment_time sent) = Inr st3
           \<and> trace st3 = trace st @ send_events 0 sz (send_to_right (head_update ops st))
                             @ [Time_increment] @ evs
           \<and> removals ops inputs (warmup_time inputs < c_int (time st + 1)) evs
           \<and> travel_time st3 = travel_time st @ added_values evs
           \<and> time st3 = c_int (time st + 1)
           \<and> deleted_vehicles evs =
               rev (map ((!) (vehicles st)) (vehicles_to_remove (head_update ops st)))
           \<and> vehicles st3 = nths (vehicles st) (- set (vehicles_to_remove (head_update ops st)))"
proof -
  let ?marked = "vehicles_to_remove (head_update ops st)"
  let ?st2 = "increment_time sent"
  from head_update_marks[OF assms(1,2), of ops] have
    s: "sorted_wrt (<) ?marked" and b: "\<forall>m\<in>set ?marked. m < length (vehicles st)"
    by simp_all
  have f: "vehicles_to_remove ?st2 = ?marked" "vehicles ?st2 = vehicles st"
    "trace ?st2 = trace st @ send_events 0 sz (send_to_right (head_update ops st))
                    @ [Time_increment]"
    "travel_time ?st2 = travel_time st" "time ?st2 = c_int (time st + 1)"
    by (simp_all add: send_batch_result[OF assms(3)] increment_time_def head_update_fields)
  have "sorted ?marked"
    using s by (rule strict_sorted_imp_sorted)
  then have so: "sort ?marked = ?marked"
    by (rule sorted_sort_id)
  have d: "sorted_wrt (>) (rev ?marked)"
    using s by (simp add: sorted_wrt_rev)
  have "\<forall>d\<in>set (rev ?marked). d < length (vehicles ?st2)"
    using b f(2) by simp
  from remove_finished_descending[OF d this, of ops inputs] obtain st3 evs where
    r: "remove_finished ops inputs (rev ?marked) ?st2 = Inr st3"
       "trace st3 = trace ?st2 @ evs"
       "deleted_vehicles evs = map ((!) (vehicles ?st2)) (rev ?marked)"
       "vehicles st3 = nths (vehicles ?st2) (- set (rev ?marked))"
    by (elim exE conjE) (rule that)
  from remove_finished_trace[OF r(1)] obtain evs' where
    t: "trace st3 = trace ?st2 @ evs'"
       "removals ops inputs (time ?st2 > warmup_time inputs) evs'"
       "travel_time st3 = travel_time ?st2 @ added_values evs'"
       "time st3 = time ?st2"
    by auto
  from r(2) t(1) have e: "evs' = evs" by simp
  show ?thesis
  proof (intro exI[of _ st3] exI[of _ evs] conjI)
    show "remove_finished ops inputs (rev (sort (vehicles_to_remove ?st2))) ?st2 = Inr st3"
      using r(1) by (simp add: f(1) so)
    show "trace st3 = trace st @ send_events 0 sz (send_to_right (head_update ops st))
                        @ [Time_increment] @ evs"
      using r(2) f(3) by simp
    show "removals ops inputs (warmup_time inputs < c_int (time st + 1)) evs"
      using t(2) e f(5) by simp
    show "travel_time st3 = travel_time st @ added_values evs"
      using t(3) e f(4) by simp
    show "time st3 = c_int (time st + 1)"
      using t(4) f(5) by simp
    show "deleted_vehicles evs = rev (map ((!) (vehicles st)) ?marked)"
      using r(3) f(2) by (simp add: rev_map)
    show "vehicles st3 = nths (vehicles st) (- set ?marked)"
      using r(4) f(2) by simp
  qed
qed

lemma tick_head_result:
  assumes "ready ops 0 sz st"
  shows "\<exists>st1 removal.
           (\<forall>f. tick (ops\<lparr> attemptSpawn := f \<rparr>) inputs 0 sz L st
                   = Inr (spawn (ops\<lparr> attemptSpawn := f \<rparr>) inputs st1))
           \<and> trace st1 = trace st @ send_events 0 sz (send_to_right (head_update ops st))
                             @ [Time_increment] @ removal
           \<and> removals ops inputs (warmup_time inputs < c_int (time st + 1)) removal
           \<and> travel_time st1 = travel_time st @ added_values removal
           \<and> time st1 = c_int (time st + 1)
           \<and> deleted_vehicles removal =
               rev (map ((!) (vehicles st)) (vehicles_to_remove (head_update ops st)))
           \<and> vehicles st1 = nths (vehicles st) (- set (vehicles_to_remove (head_update ops st)))
           \<and> vehicles_to_remove st1 = []
           \<and> (1 < sz \<longrightarrow> batch_fits (length (send_to_right (head_update ops st))))"
proof -
  from assms have l: "vehicles_to_remove st = []" "send_to_right st = []"
    by (simp_all add: ready_def loop_state_def)
  have fits: "1 < sz \<longrightarrow> batch_fits (length (send_to_right (head_update ops st)))"
    using assms head_update_queue_bound[of ops st] l(2)
    by (auto simp: ready_def held_vehicles_def intro: batch_fits_mono)
  then obtain sent where sb: "send_batch 0 sz (head_update ops st) = Inr sent"
    using send_batch_fits[of 0 sz "head_update ops st"] by auto
  from head_removal[OF l sb, of inputs] obtain st3 evs where
    r: "remove_finished ops inputs (rev (sort (vehicles_to_remove (increment_time sent))))
          (increment_time sent) = Inr st3"
       "trace st3 = trace st @ send_events 0 sz (send_to_right (head_update ops st))
                      @ [Time_increment] @ evs"
       "removals ops inputs (warmup_time inputs < c_int (time st + 1)) evs"
       "travel_time st3 = travel_time st @ added_values evs"
       "time st3 = c_int (time st + 1)"
       "deleted_vehicles evs =
          rev (map ((!) (vehicles st)) (vehicles_to_remove (head_update ops st)))"
       "vehicles st3 = nths (vehicles st) (- set (vehicles_to_remove (head_update ops st)))"
    by (elim exE conjE) (rule that)
  have t: "tick (ops\<lparr> attemptSpawn := f \<rparr>) inputs 0 sz L st
             = Inr (spawn (ops\<lparr> attemptSpawn := f \<rparr>) inputs (st3\<lparr> vehicles_to_remove := [] \<rparr>))"
    for f
    using sb r(1)
    by (simp add: tick_def update_phase_def head_update_attemptSpawn head_finish_def
        remove_finished_attemptSpawn Let_def)
  show ?thesis
    using t r(2-7) fits
    by (intro exI[of _ "st3\<lparr> vehicles_to_remove := [] \<rparr>"] exI[of _ evs]) simp
qed

lemma tick_interior_result:
  assumes "ready ops rank sz st" and "0 < rank"
  shows "\<exists>st3 st' removal pushed hs.
           update_phase ops inputs rank L st = Inr st3
           \<and> send_to_right st3 = map ho_record hs
           \<and> tick ops inputs rank sz L st = Inr st'
           \<and> trace st' = trace st
                @ [MPI_Recv (rank - 1) (from_left st ! 0), MPI_Recv (rank - 1) (from_left st ! 1)]
                @ removal @ send_events rank sz (map ho_record hs) @ [Time_increment]
           \<and> removals ops inputs (warmup_time inputs < time st) removal
           \<and> travel_time st' = travel_time st @ added_values removal
           \<and> time st' = c_int (time st + 1)
           \<and> from_left st' = drop 2 (from_left st)
           \<and> pushed_for ops inputs (lanes st) None (received_records st) pushed
           \<and> list_all (handed_on ops inputs L) hs
           \<and> set (map ho_vehicle hs) \<subseteq> set (local_vehicles st @ pushed)
           \<and> deleted_vehicles removal = map ho_vehicle (filter (\<lambda>h. \<not> ho_kept h) hs)
           \<and> set (map ho_vehicle (filter ho_kept hs)) \<subseteq> set (local_vehicles st')
           \<and> length (local_vehicles st') + length (deleted_vehicles removal)
               = length (local_vehicles st) + length pushed
           \<and> send_to_right st' = (if rank + 1 < sz then [] else map ho_record hs)
           \<and> (rank + 1 < sz \<longrightarrow> batch_fits (length hs))"
proof -
  from assms have c: "can_receive st" by (simp add: ready_def)
  let ?recvs = "[MPI_Recv (rank - 1) (from_left st ! 0), MPI_Recv (rank - 1) (from_left st ! 1)]"
  let ?st1 = "st\<lparr> from_left := drop 2 (from_left st),
                   send_to_right := received_records st,
                   trace := trace st @ ?recvs \<rparr>"
  have a: "receive_batch (rank - 1) st = Inr ?st1"
    using c by (rule receive_batch_can_receive)
  from assms reconstruct_completes_iff[of ops inputs "received_records st" ?st1]
  obtain st2 where b: "reconstruct ops inputs (received_records st) None ?st1 = Inr st2"
    by (auto simp: ready_def split: list.splits)
  note b1 = reconstruct_fields[OF b]
  have e: "local_vehicles_to_remove (st2\<lparr> send_to_right := [] \<rparr>) = []"
    using reconstruct_to_remove[OF b] assms(1) by (simp add: ready_def loop_state_def)
  from update_local_completes[OF this, of ops inputs L 0] obtain st3 where
    u: "update_local ops inputs L 0 (st2\<lparr> send_to_right := [] \<rparr>) = Inr st3"
    by blast
  from reconstruct_pushed[OF b] obtain pushed where
    p: "local_vehicles st2 = local_vehicles st @ pushed"
       "pushed_for ops inputs (lanes st) None (received_records st) pushed"
    by auto
  from update_local_trace[OF u] obtain evs where
    t: "trace st3 = trace st2 @ evs"
       "removals ops inputs (time st2 > warmup_time inputs) evs"
       "travel_time st3 = travel_time st2 @ added_values evs"
       "time st3 = time st2" "from_left st3 = from_left st2"
    by auto
  from update_local_handoffs[OF u e] obtain evs' hs where
    h: "trace st3 = trace (st2\<lparr> send_to_right := [] \<rparr>) @ evs'"
       "send_to_right st3 = send_to_right (st2\<lparr> send_to_right := [] \<rparr>) @ map ho_record hs"
       "list_all (handed_on ops inputs L) hs"
       "set (map ho_vehicle hs) \<subseteq> set (drop 0 (local_vehicles (st2\<lparr> send_to_right := [] \<rparr>)))"
       "deleted_vehicles evs' = map ho_vehicle (filter (\<lambda>h. \<not> ho_kept h) hs)"
       "set (map ho_vehicle (filter ho_kept hs)) \<subseteq> set (local_vehicles st3)"
       "length (local_vehicles st3) + length (deleted_vehicles evs')
          = length (local_vehicles (st2\<lparr> send_to_right := [] \<rparr>))"
    by (elim exE conjE) (rule that)
  from h(1) t(1) have ee: "evs' = evs" by simp
  have q: "send_to_right st3 = map ho_record hs"
    using h(2) by simp
  have lp: "length pushed = length (received_records st)"
    using p(2) by (rule pushed_for_length)
  have "length (send_to_right st3) \<le> held_vehicles rank st"
    using update_local_queue_bound[OF u e] p(1) lp assms(2) by (simp add: held_vehicles_def)
  with assms(1) have "rank + 1 < sz \<longrightarrow> batch_fits (length (send_to_right st3))"
    by (auto simp: ready_def intro: batch_fits_mono)
  then have fits: "rank + 1 < sz \<longrightarrow> batch_fits (length hs)"
    by (simp add: q)
  from \<open>rank + 1 < sz \<longrightarrow> batch_fits (length (send_to_right st3))\<close>
  obtain sent where sb: "send_batch rank sz st3 = Inr sent"
    using send_batch_fits[of rank sz st3] by auto
  have up: "update_phase ops inputs rank L st = Inr st3"
    using a b u assms(2) by (simp add: update_phase_def interior_update_def)
  have tk: "tick ops inputs rank sz L st = Inr (increment_time sent)"
    using up sb assms(2) by (simp add: tick_def Let_def)
  note sr = send_batch_result[OF sb]
  show ?thesis
  proof (rule exI[of _ st3], rule exI[of _ "increment_time sent"], rule exI[of _ evs],
      rule exI[of _ pushed], rule exI[of _ hs], intro conjI)
    show "update_phase ops inputs rank L st = Inr st3" by (rule up)
    show "send_to_right st3 = map ho_record hs" by (rule q)
    show "tick ops inputs rank sz L st = Inr (increment_time sent)" by (rule tk)
    show "trace (increment_time sent) = trace st @ ?recvs @ evs
            @ send_events rank sz (map ho_record hs) @ [Time_increment]"
      using t(1) b1 q by (simp add: sr increment_time_def)
    show "removals ops inputs (warmup_time inputs < time st) evs"
      using t(2) b1 by simp
    show "travel_time (increment_time sent) = travel_time st @ added_values evs"
      using t(3) b1 by (simp add: sr increment_time_def)
    show "time (increment_time sent) = c_int (time st + 1)"
      using t(4) b1 by (simp add: sr increment_time_def)
    show "from_left (increment_time sent) = drop 2 (from_left st)"
      using t(5) b1 by (simp add: sr increment_time_def)
    show "pushed_for ops inputs (lanes st) None (received_records st) pushed"
      by (rule p(2))
    show "list_all (handed_on ops inputs L) hs" by (rule h(3))
    show "set (map ho_vehicle hs) \<subseteq> set (local_vehicles st @ pushed)"
      using h(4) p(1) by simp
    show "deleted_vehicles evs = map ho_vehicle (filter (\<lambda>h. \<not> ho_kept h) hs)"
      using h(5) ee by simp
    show "set (map ho_vehicle (filter ho_kept hs)) \<subseteq> set (local_vehicles (increment_time sent))"
      using h(6) by (simp add: sr increment_time_def)
    show "length (local_vehicles (increment_time sent)) + length (deleted_vehicles evs)
            = length (local_vehicles st) + length pushed"
      using h(7) ee p(1) by (simp add: sr increment_time_def)
    show "send_to_right (increment_time sent) = (if rank + 1 < sz then [] else map ho_record hs)"
      using q by (simp add: sr increment_time_def)
    show "rank + 1 < sz \<longrightarrow> batch_fits (length hs)" by (rule fits)
  qed
qed


section \<open>Batches on the wire\<close>

lemma received_messages_append:
  "received_messages (xs @ ys) = received_messages xs @ received_messages ys"
  by (induction xs rule: received_messages.induct) simp_all

lemma removals_received: "removals ops inputs p evs \<Longrightarrow> received_messages evs = []"
  by (induction ops inputs p evs rule: removals.induct) auto

lemma received_messages_send_events: "received_messages (send_events rank sz batch) = []"
  by (simp add: send_events_def)

lemma VehicleData_in_range_make_vdata:
  "VehicleData_in_range (make_vdata ops v new_pos t w)"
  by (simp add: VehicleData_in_range_def make_vdata_def in_int_range_c_int)

lemma serializes_in_range: "serializes ops v r \<Longrightarrow> VehicleData_in_range r"
  by (auto simp: serializes_def VehicleData_in_range_make_vdata)

lemma local_record_in_range: "VehicleData_in_range (local_record ops v w)"
  by (cases "performLaneMove ops v (sensed ops v w)")
    (simp add: local_record_def VehicleData_in_range_make_vdata)

lemma handed_on_in_range: "handed_on ops inputs L h \<Longrightarrow> VehicleData_in_range (ho_record h)"
  by (auto simp: handed_on_def local_record_in_range)

lemma handoffs_in_range:
  "list_all (handed_on ops inputs L) hs \<Longrightarrow> list_all VehicleData_in_range (map ho_record hs)"
  by (induction hs) (auto simp: handed_on_in_range)

lemma serialized_in_range:
  "list_all2 (\<lambda>m r. serializes ops (vs ! m) r) marked batch
     \<Longrightarrow> list_all VehicleData_in_range batch"
  by (induction marked batch rule: list_all2_induct) (simp_all add: serializes_in_range)

lemma ints_of_bytes_int_to_bytes:
  "ints_of_bytes (int_to_bytes x @ bs) = bytes_to_int (int_to_bytes x) # ints_of_bytes bs"
  by (simp add: int_to_bytes_def Let_def)

lemma ints_of_bytes_VehicleData_to_bytes:
  assumes "VehicleData_in_range r"
  shows "ints_of_bytes (VehicleData_to_bytes r @ bs) = members r @ ints_of_bytes bs"
  using assms
  by (simp add: VehicleData_to_bytes_def members_def VehicleData_in_range_def
      ints_of_bytes_int_to_bytes bytes_to_int_int_to_bytes)

lemma ints_of_bytes_batch:
  assumes "list_all VehicleData_in_range batch"
  shows "ints_of_bytes (concat (map VehicleData_to_bytes batch)) = concat (map members batch)"
  using assms
  by (induction batch) (simp_all add: ints_of_bytes_VehicleData_to_bytes)

lemma receive_sent_batch:
  assumes "batch_fits (length batch)" and "list_all VehicleData_in_range batch"
    and "from_left st = int_to_bytes (int (length batch))
           # concat (map VehicleData_to_bytes batch) # rest"
  shows "receive_batch neighbor_left st =
           Inr (st\<lparr> from_left := rest, send_to_right := batch,
                    trace := trace st
                      @ [MPI_Recv neighbor_left (int_to_bytes (int (length batch))),
                         MPI_Recv neighbor_left (concat (map VehicleData_to_bytes batch))] \<rparr>)"
proof -
  let ?n = "length batch"
  have r: "in_int_range (int ?n)"
    using batch_fits_counts(1)[OF assms(1)] in_int_range_c_int[of "int ?n"] by simp
  have n: "bytes_to_int (int_to_bytes (int ?n)) = int ?n"
    using r by (rule bytes_to_int_int_to_bytes)
  have c: "can_receive st"
    using batch_fits_counts(3)[OF assms(1)]
    by (simp add: can_receive_def assms(3) length_int_to_bytes n
        length_concat_VehicleData_to_bytes)
  have "receive_into
          (concat (map VehicleData_to_bytes (resize_records ?n (send_to_right st))))
          (concat (map VehicleData_to_bytes batch))
        = concat (map VehicleData_to_bytes batch)"
    by (simp add: receive_into_def length_concat_VehicleData_to_bytes length_resize_records)
  then have "received_records st = batch"
    by (simp add: received_records_def assms(3) n records_of_bytes_concat[OF assms(2)])
  with receive_batch_can_receive[OF c, of neighbor_left] show ?thesis
    by (simp add: assms(3))
qed


section \<open>The warm-up test at rank 0 and above\<close>

text \<open>
  C7. The specification has one warm-up test for all ranks. With the clock at the
  warm-up time (5) a vehicle leaves the segment of rank 0 and another the segment of
  rank 1. Rank 0
  tests after it has incremented the time (6 > 5) and adds the travel time; rank 1 tests
  before the increment (5 > 5) and adds nothing.
\<close>

theorem warmup_test_head_and_interior_differ:
  "time ref_head = warmup_time ref_inputs
   \<and> time ref_interior = warmup_time ref_inputs
   \<and> \<not> isl (tick (ref_ops [0]) ref_inputs 0 2 10 ref_head)
   \<and> deleted_vehicles (trace (projr (tick (ref_ops [0]) ref_inputs 0 2 10 ref_head))) = [5]
   \<and> travel_time (projr (tick (ref_ops [0]) ref_inputs 0 2 10 ref_head)) = [5]
   \<and> \<not> isl (tick (ref_ops [0]) ref_inputs 1 2 10 ref_interior)
   \<and> deleted_vehicles (trace (projr (tick (ref_ops [0]) ref_inputs 1 2 10 ref_interior))) = [5]
   \<and> travel_time (projr (tick (ref_ops [0]) ref_inputs 1 2 10 ref_interior)) = []"
  by code_simp

section \<open>The spawn\<close>

text \<open>
  C8. A worker that is ready for a tick completes it. At rank 0, whatever \<open>attemptSpawn\<close>
  is, the tick ends with one call of it and nothing after: there is a state, the same
  for every \<open>attemptSpawn\<close>, that the worker has reached when its batch is sent, its time
  incremented and its finished vehicles removed, and the result of the tick is that
  state with the vehicles, the next id and the world that the one call returns for it.
  At a rank above 0 the result of the tick is the same for every \<open>attemptSpawn\<close>, and no
  call of it is among the events of the tick.
\<close>

theorem attemptSpawn_once_per_tick_at_head:
  assumes "ready ops rank sz st"
  shows "if rank = 0 then
           (\<exists>st1 removal.
              (\<forall>f. tick (ops\<lparr> attemptSpawn := f \<rparr>) inputs rank sz L st =
                      Inr (case f inputs (vehicles st1) (next_id st1) (world st1) of
                             (vs, nid, w) \<Rightarrow>
                               st1\<lparr> world := w, vehicles := vs, next_id := nid,
                                    trace := trace st1 @ [Attempt_spawn] \<rparr>))
              \<and> tick ops inputs rank sz L st = Inr (spawn ops inputs st1)
              \<and> trace st1 = trace st @ send_events 0 sz (send_to_right (head_update ops st))
                                @ [Time_increment] @ removal
              \<and> removals ops inputs (warmup_time inputs < c_int (time st + 1)) removal
              \<and> time st1 = c_int (time st + 1)
              \<and> vehicles st1
                  = nths (vehicles st) (- set (vehicles_to_remove (head_update ops st)))
              \<and> vehicles_to_remove st1 = [])
         else
           (\<exists>st' evs.
              (\<forall>f. tick (ops\<lparr> attemptSpawn := f \<rparr>) inputs rank sz L st = Inr st')
              \<and> tick ops inputs rank sz L st = Inr st'
              \<and> trace st' = trace st @ evs
              \<and> Attempt_spawn \<notin> set evs)"
proof (cases "rank = 0")
  case True
  from tick_head_result[OF assms[unfolded True], of inputs L] obtain st1 removal where
    t: "\<forall>f. tick (ops\<lparr> attemptSpawn := f \<rparr>) inputs 0 sz L st
              = Inr (spawn (ops\<lparr> attemptSpawn := f \<rparr>) inputs st1)"
    and r: "trace st1 = trace st @ send_events 0 sz (send_to_right (head_update ops st))
                          @ [Time_increment] @ removal"
       "removals ops inputs (warmup_time inputs < c_int (time st + 1)) removal"
       "time st1 = c_int (time st + 1)"
       "vehicles st1 = nths (vehicles st) (- set (vehicles_to_remove (head_update ops st)))"
       "vehicles_to_remove st1 = []"
    by (elim exE conjE) (rule that)
  have a: "tick (ops\<lparr> attemptSpawn := f \<rparr>) inputs 0 sz L st =
             Inr (case f inputs (vehicles st1) (next_id st1) (world st1) of
                    (vs, nid, w) \<Rightarrow>
                      st1\<lparr> world := w, vehicles := vs, next_id := nid,
                           trace := trace st1 @ [Attempt_spawn] \<rparr>)" for f
    using t by (simp add: spawn_def)
  from t have "tick (ops\<lparr> attemptSpawn := attemptSpawn ops \<rparr>) inputs 0 sz L st
                 = Inr (spawn (ops\<lparr> attemptSpawn := attemptSpawn ops \<rparr>) inputs st1)"
    by (rule spec)
  then have b: "tick ops inputs 0 sz L st = Inr (spawn ops inputs st1)"
    by simp
  have "\<exists>st1 removal.
          (\<forall>f. tick (ops\<lparr> attemptSpawn := f \<rparr>) inputs 0 sz L st =
                  Inr (case f inputs (vehicles st1) (next_id st1) (world st1) of
                         (vs, nid, w) \<Rightarrow>
                           st1\<lparr> world := w, vehicles := vs, next_id := nid,
                                trace := trace st1 @ [Attempt_spawn] \<rparr>))
          \<and> tick ops inputs 0 sz L st = Inr (spawn ops inputs st1)
          \<and> trace st1 = trace st @ send_events 0 sz (send_to_right (head_update ops st))
                            @ [Time_increment] @ removal
          \<and> removals ops inputs (warmup_time inputs < c_int (time st + 1)) removal
          \<and> time st1 = c_int (time st + 1)
          \<and> vehicles st1
              = nths (vehicles st) (- set (vehicles_to_remove (head_update ops st)))
          \<and> vehicles_to_remove st1 = []"
    using a b r by (intro exI[of _ st1] exI[of _ removal] conjI allI)
  with True show ?thesis by simp
next
  case False
  then have pos: "0 < rank" by simp
  from tick_interior_result[OF assms pos, of inputs L]
  obtain st' removal and hs :: "handoff list" where
    t: "tick ops inputs rank sz L st = Inr st'"
    and tr: "trace st' = trace st
                @ [MPI_Recv (rank - 1) (from_left st ! 0), MPI_Recv (rank - 1) (from_left st ! 1)]
                @ removal @ send_events rank sz (map ho_record hs) @ [Time_increment]"
    and r: "removals ops inputs (warmup_time inputs < time st) removal"
    by (elim exE conjE) (rule that)
  let ?evs = "[MPI_Recv (rank - 1) (from_left st ! 0), MPI_Recv (rank - 1) (from_left st ! 1)]
                @ removal @ send_events rank sz (map ho_record hs) @ [Time_increment]"
  have "count_list ?evs Attempt_spawn = 0"
    by (simp add: removals_count_spawn[OF r] send_events_count_spawn)
  then have n: "Attempt_spawn \<notin> set ?evs"
    unfolding count_list_0_iff .
  have "\<exists>st' evs.
          (\<forall>f. tick (ops\<lparr> attemptSpawn := f \<rparr>) inputs rank sz L st = Inr st')
          \<and> tick ops inputs rank sz L st = Inr st'
          \<and> trace st' = trace st @ evs
          \<and> Attempt_spawn \<notin> set evs"
    using t tr n
    by (intro exI[of _ st'] exI[of _ ?evs] conjI allI)
      (simp_all add: tick_attemptSpawn[OF pos])
  with False show ?thesis by simp
qed

theorem attemptSpawn_once_per_tick_at_head_witness:
  "ready (ref_ops [0]) 0 2 ref_head
   \<and> (\<exists>st1 removal.
        (\<forall>f. tick ((ref_ops [0])\<lparr> attemptSpawn := f \<rparr>) ref_inputs 0 2 10 ref_head =
                Inr (case f ref_inputs (vehicles st1) (next_id st1) (world st1) of
                       (vs, nid, w) \<Rightarrow>
                         st1\<lparr> world := w, vehicles := vs, next_id := nid,
                              trace := trace st1 @ [Attempt_spawn] \<rparr>))
        \<and> removals (ref_ops [0]) ref_inputs True removal
        \<and> time st1 = 6
        \<and> vehicles st1 = [])"
proof -
  have r: "ready (ref_ops [0]) 0 2 ref_head"
    by code_simp
  have c: "c_int (time ref_head + 1) = 6" "warmup_time ref_inputs = 5"
    by (simp_all add: c_int_def ref_head_def ref_inputs_def)
  have n: "nths (vehicles ref_head)
             (- set (vehicles_to_remove (head_update (ref_ops [0]) ref_head))) = []"
    by code_simp
  from attemptSpawn_once_per_tick_at_head[OF r, of ref_inputs 10, unfolded if_P[OF refl]]
  obtain st1 removal where
    w: "\<forall>f. tick ((ref_ops [0])\<lparr> attemptSpawn := f \<rparr>) ref_inputs 0 2 10 ref_head =
              Inr (case f ref_inputs (vehicles st1) (next_id st1) (world st1) of
                     (vs, nid, w) \<Rightarrow>
                       st1\<lparr> world := w, vehicles := vs, next_id := nid,
                            trace := trace st1 @ [Attempt_spawn] \<rparr>)"
       "tick (ref_ops [0]) ref_inputs 0 2 10 ref_head = Inr (spawn (ref_ops [0]) ref_inputs st1)"
       "trace st1 = trace ref_head
          @ send_events 0 2 (send_to_right (head_update (ref_ops [0]) ref_head))
          @ [Time_increment] @ removal"
       "removals (ref_ops [0]) ref_inputs
          (warmup_time ref_inputs < c_int (time ref_head + 1)) removal"
       "time st1 = c_int (time ref_head + 1)"
       "vehicles st1 = nths (vehicles ref_head)
                         (- set (vehicles_to_remove (head_update (ref_ops [0]) ref_head)))"
       "vehicles_to_remove st1 = []"
    by (elim exE conjE) (rule that)
  have "removals (ref_ops [0]) ref_inputs True removal"
    using w(4) by (simp add: c)
  moreover have "time st1 = 6"
    using w(5) by (simp add: c)
  moreover have "vehicles st1 = []"
    using w(6) by (simp add: n)
  ultimately show ?thesis
    using r w(1) by blast
qed

end
